theory Spec2Isabelle
  imports Main "HOL-Library.Word" "HOL-Library.Multiset" "HOL-Library.Monad_Syntax"
begin

section \<open>Time, durations and decimal formatting\<close>

text \<open>
  A \<^verbatim>\<open>time.Time\<close> is modelled by the instant it denotes, in nanoseconds since the Unix
  epoch, and a \<^verbatim>\<open>time.Duration\<close> by its number of nanoseconds. \<^verbatim>\<open>a.After(b)\<close> is
  \<open>b < a\<close>, \<^verbatim>\<open>a.Before(b)\<close> is \<open>a < b\<close>, \<^verbatim>\<open>t.Add(d)\<close> is \<open>t + d\<close> and \<^verbatim>\<open>t.Unix()\<close>
  is the number of whole seconds, rounded towards minus infinity.
\<close>

type_synonym time = int
type_synonym duration = int

definition Second :: duration where
  "Second = 1000000000"

definition Unix :: "time \<Rightarrow> int" where
  "Unix t = t div 1000000000"

definition digit :: "nat \<Rightarrow> char" where
  "digit d = ''0123456789'' ! d"

function show_nat :: "nat \<Rightarrow> string" where
  "show_nat n = (if n < 10 then [digit n] else show_nat (n div 10) @ [digit (n mod 10)])"
  by pat_completeness auto
termination
  by (relation "measure id") auto

declare show_nat.simps [simp del]

text \<open>The verb \<^verbatim>\<open>%d\<close> on an \<^verbatim>\<open>int64\<close> and on a \<^verbatim>\<open>uint64\<close>.\<close>

definition show_int :: "int \<Rightarrow> string" where
  "show_int i = (if i < 0 then CHR ''-'' # show_nat (nat (- i)) else show_nat (nat i))"

definition show_uint64 :: "64 word \<Rightarrow> string" where
  "show_uint64 v = show_nat (unat v)"

section \<open>Labels and metric identities\<close>

record label =
  key :: string
  lvalue :: string

type_synonym labels = "label list"

text \<open>A Go run-time panic: slicing \<^verbatim>\<open>s[:n]\<close> with \<open>n\<close> out of range.\<close>

datatype panic = SliceBoundsOutOfRange int

text \<open>\<^verbatim>\<open>labels.with\<close>: a fresh slice, one longer, the new label last.\<close>

definition labels_with :: "labels \<Rightarrow> string \<Rightarrow> string \<Rightarrow> labels" where
  "labels_with l k v = l @ [\<lparr>key = k, lvalue = v\<rparr>]"

text \<open>
  \<^verbatim>\<open>labels.String\<close>. The verb \<^verbatim>\<open>%#v\<close> on a string prints it as a Go string literal; that
  function of the standard library is the parameter \<open>quote\<close>. The loop appends
  \<^verbatim>\<open>key=quoted,\<close> for every label, and the result is \<^verbatim>\<open>s[:len(s)-1]\<close>, which panics
  when \<^verbatim>\<open>len(s)-1\<close> is negative.
\<close>

definition labels_String :: "(string \<Rightarrow> string) \<Rightarrow> labels \<Rightarrow> panic + string" where
  "labels_String quote l =
     (let s = foldl (\<lambda>s lb. s @ key lb @ ''='' @ quote (lvalue lb) @ '','') [] l;
          n = int (length s) - 1
      in if n < 0 then Inl (SliceBoundsOutOfRange n) else Inr (take (nat n) s))"

section \<open>The linked-list recorder\<close>

text \<open>
  The struct \<^verbatim>\<open>record\<close> with its fields \<^verbatim>\<open>value\<close>, \<^verbatim>\<open>at\<close> and \<^verbatim>\<open>next\<close>; a \<^verbatim>\<open>*record\<close>
  is the node together with everything reachable from it, and \<^verbatim>\<open>nil\<close> is \<open>None\<close>.
\<close>

datatype record_node = Record (val: "64 word") (at: time) (nxt: "record_node option")

text \<open>\<^verbatim>\<open>record.forward\<close>, case by case as in the source.\<close>

fun forward :: "record_node \<Rightarrow> time \<Rightarrow> record_node option \<times> bool" where
  "forward (Record v a n) to =
     (if to < a then (None, True)
      else (case n of
              None \<Rightarrow> (Some (Record v a n), False)
            | Some r \<Rightarrow> if to < at r then (Some (Record v a n), True) else forward r to))"

record linkedListRecorder =
  first :: "string \<rightharpoonup> record_node"
  current :: "string \<rightharpoonup> record_node"

definition newLinkedListRecorder :: linkedListRecorder where
  "newLinkedListRecorder = \<lparr>first = Map.empty, current = Map.empty\<rparr>"

text \<open>
  The assignment \<^verbatim>\<open>current.next = next\<close> writes to the tail node of the series, which is
  also the last node of the chain that \<^verbatim>\<open>r.first[name]\<close> points to. In the model the chain
  under \<open>first\<close> holds its nodes by value, so the write is made there: \<open>set_tail_next\<close>
  replaces the \<^verbatim>\<open>nil\<close> at the end of a chain.
\<close>

fun set_tail_next :: "record_node \<Rightarrow> record_node \<Rightarrow> record_node" where
  "set_tail_next (Record v a None) new = Record v a (Some new)"
| "set_tail_next (Record v a (Some r)) new = Record v a (Some (set_tail_next r new))"

definition ignoring_message :: "string \<Rightarrow> time \<Rightarrow> time \<Rightarrow> string" where
  "ignoring_message name t cur_at =
     ''backfill: '' @ name @ '': ignoring record at '' @ show_int (Unix t)
       @ '', current is at '' @ show_int (Unix cur_at) @ [CHR 0x0A]"

text \<open>
  \<^verbatim>\<open>linkedListRecorder.Inc\<close>. The result is the recorder after the call and the line
  printed to standard output, if any.
\<close>

definition Inc :: "linkedListRecorder \<Rightarrow> string \<Rightarrow> 64 word \<Rightarrow> time
    \<Rightarrow> linkedListRecorder \<times> string option" where
  "Inc r name v t =
     (case current r name of
        Some cur \<Rightarrow>
          if t < at cur then (r, Some (ignoring_message name t (at cur)))
          else
            (let new = Record (val cur + v) t None
             in (r\<lparr>first := (case first r name of
                                None \<Rightarrow> first r
                              | Some c \<Rightarrow> (first r)(name \<mapsto> set_tail_next c new)),
                    current := (current r)(name \<mapsto> new)\<rparr>, None))
      | None \<Rightarrow>
          (let new = Record v t None
           in (r\<lparr>first := (first r)(name \<mapsto> new), current := (current r)(name \<mapsto> new)\<rparr>,
               None)))"

section \<open>Writing the recorded series\<close>

text \<open>
  \<^verbatim>\<open>Write\<close> returns \<^verbatim>\<open>ErrNoRecords\<close> or the error of a failed write to \<^verbatim>\<open>w\<close>.
\<close>

datatype 'e error = ErrNoRecords | WriterError 'e

text \<open>
  What a call of \<^verbatim>\<open>Write\<close> leaves behind: the writer's state, the error returned, and
  (for stating properties only) one entry for every iteration of the outer loop, holding
  the value of \<^verbatim>\<open>now\<close> and the samples written in that iteration, in order.
\<close>

record ('w, 'e) outcome =
  sink :: 'w
  err :: "'e error option"
  trace :: "(time \<times> (string \<times> 64 word) list) list"

text \<open>The line \<^verbatim>\<open>fmt.Fprintf(w, "%s %d %d\n", name, next.value, now.Unix())\<close> writes.\<close>

definition sample_line :: "string \<Rightarrow> 64 word \<Rightarrow> time \<Rightarrow> string" where
  "sample_line name v now = name @ '' '' @ show_uint64 v @ '' '' @ show_int (Unix now) @ [CHR 0x0A]"

text \<open>
  An \<^verbatim>\<open>io.Writer\<close> is a state \<open>'w\<close> and a function that writes a string to it and may
  report an error. \<^verbatim>\<open>strings.Builder\<close> appends and never fails.
\<close>

type_synonym ('w, 'e) writer = "'w \<Rightarrow> string \<Rightarrow> 'w \<times> 'e option"

definition builder :: "(string, 'e) writer" where
  "builder b s = (b @ s, None)"

text \<open>
  Go leaves the order in which \<^verbatim>\<open>range\<close> visits a map unspecified, and it may differ from
  one loop to the next. Every \<^verbatim>\<open>range\<close> loop of \<^verbatim>\<open>Write\<close> therefore takes the list of keys
  in the order of that visit.

  The first loop: the earliest \<^verbatim>\<open>at\<close> among the first records. \<open>earlier\<close> is its body:
  \<^verbatim>\<open>if start == nil || f.at.Before(*start) { start = &f.at }\<close>.
\<close>

definition earlier :: "(string \<rightharpoonup> record_node) \<Rightarrow> time option \<Rightarrow> string \<Rightarrow> time option" where
  "earlier fst_map start n =
     (case fst_map n of
        None \<Rightarrow> start
      | Some f \<Rightarrow> (case start of
                    None \<Rightarrow> Some (at f)
                  | Some s \<Rightarrow> if at f < s then Some (at f) else start))"

definition start_time :: "string list \<Rightarrow> (string \<rightharpoonup> record_node) \<Rightarrow> time option" where
  "start_time names fst_map = foldl (earlier fst_map) None names"

text \<open>
  The loop over \<^verbatim>\<open>current\<close> inside one time step. Its state is the cursor map, the
  writer, \<^verbatim>\<open>hasActiveMetrics\<close> and the samples written so far in this step; the last
  component of the result is the error that ended the loop early, if any.
\<close>

fun range_current :: "('w, 'e) writer \<Rightarrow> time \<Rightarrow> string list
    \<Rightarrow> (string \<rightharpoonup> record_node) \<Rightarrow> 'w \<Rightarrow> bool \<Rightarrow> (string \<times> 64 word) list
    \<Rightarrow> (string \<rightharpoonup> record_node) \<times> 'w \<times> bool \<times> (string \<times> 64 word) list \<times> 'e option" where
  "range_current wr now [] cur w active em = (cur, w, active, em, None)"
| "range_current wr now (name # names) cur w active em =
     (case cur name of
        None \<Rightarrow> range_current wr now names cur w active em
      | Some r \<Rightarrow>
          (case forward r now of
             (None, hasMore) \<Rightarrow> range_current wr now names cur w active em
           | (Some next, hasMore) \<Rightarrow>
               (let active' = (active \<or> hasMore);
                    cur' = (if hasMore then cur(name \<mapsto> next) else cur)
                in (case wr w (sample_line name (val next) now) of
                      (w', Some e) \<Rightarrow> (cur', w', active', em, Some e)
                    | (w', None) \<Rightarrow>
                        range_current wr now names cur' w' active' (em @ [(name, val next)])))))"

text \<open>
  The outer loop \<^verbatim>\<open>for now := *start; ; now = now.Add(resolution)\<close>, which has no bound:
  a walk that never stops is \<open>None\<close>. \<open>k\<close> counts the iterations; the order of the map
  visit in iteration \<open>k\<close> is \<open>ords (Suc k)\<close>.
\<close>

partial_function (option) walk :: "('w, 'e) writer \<Rightarrow> (nat \<Rightarrow> string list) \<Rightarrow> duration \<Rightarrow> nat
    \<Rightarrow> time \<Rightarrow> (string \<rightharpoonup> record_node) \<Rightarrow> 'w \<Rightarrow> (time \<times> (string \<times> 64 word) list) list
    \<Rightarrow> ('w, 'e) outcome option" where
  "walk wr ords resolution k now cur w tr =
     (case range_current wr now (ords (Suc k)) cur w False [] of
        (cur', w', active, em, e) \<Rightarrow>
          (case e of
             Some e' \<Rightarrow> Some \<lparr>sink = w', err = Some (WriterError e'), trace = tr @ [(now, em)]\<rparr>
           | None \<Rightarrow>
               if \<not> active then Some \<lparr>sink = w', err = None, trace = tr @ [(now, em)]\<rparr>
               else walk wr ords resolution (Suc k) (now + resolution) cur' w' (tr @ [(now, em)])))"

text \<open>
  \<^verbatim>\<open>linkedListRecorder.Write\<close>. The local map \<^verbatim>\<open>current\<close> starts as a copy of \<^verbatim>\<open>r.first\<close>.
  The result pairs the recorder as the call leaves it with the outcome.
\<close>

definition Write :: "('w, 'e) writer \<Rightarrow> (nat \<Rightarrow> string list) \<Rightarrow> linkedListRecorder \<Rightarrow> 'w
    \<Rightarrow> duration \<Rightarrow> (linkedListRecorder \<times> ('w, 'e) outcome) option" where
  "Write wr ords r w resolution =
     (case start_time (ords 0) (first r) of
        None \<Rightarrow> Some (r, \<lparr>sink = w, err = Some ErrNoRecords, trace = []\<rparr>)
      | Some start \<Rightarrow>
          map_option (\<lambda>out. (r, out)) (walk wr ords resolution 0 start (first r) w []))"

text \<open>A sequence of \<^verbatim>\<open>Inc\<close> calls on a recorder, in call order.\<close>

type_synonym event = "string \<times> 64 word \<times> time"

definition Incs :: "event list \<Rightarrow> linkedListRecorder \<Rightarrow> linkedListRecorder" where
  "Incs evs r = foldl (\<lambda>r (name, v, t). fst (Inc r name v t)) r evs"

section \<open>The recorder as objects in a store\<close>

text \<open>
  In the Go program the records, the maps and the recorder are objects behind pointers:
  \<^verbatim>\<open>Inc\<close> assigns to the \<^verbatim>\<open>next\<close> field of the tail record, which both maps reach, and
  \<^verbatim>\<open>Write\<close> follows the \<^verbatim>\<open>*record\<close> pointers held in \<^verbatim>\<open>r.first\<close>. To state what a call
  leaves untouched, the same functions are given here over an explicit store; the model
  of the two sections above, which holds a chain by value, is called the first model
  below. The store lists the objects of each kind; a pointer is the index of its object,
  \<^verbatim>\<open>nil\<close> is \<open>None\<close>, and a new object goes to the end of its list. A pointer of the
  program always refers to an object; on a store in which an address refers to none, the
  functions have no result.
\<close>

type_synonym addr = nat

record record_obj =
  obj_value :: "64 word"
  obj_at :: time
  obj_next :: "addr option"

text \<open>The struct \<^verbatim>\<open>linkedListRecorder\<close>: two maps, which are references to map objects.\<close>

record recorder_obj =
  first_map :: addr
  current_map :: addr

record store =
  record_objs :: "record_obj list"
  map_objs :: "(string \<rightharpoonup> addr) list"
  recorder_objs :: "recorder_obj list"

definition load :: "'a list \<Rightarrow> addr \<Rightarrow> 'a option" where
  "load xs a = (if a < length xs then Some (xs ! a) else None)"

text \<open>\<^verbatim>\<open>&record{...}\<close>: a new record object; the result is the store and the pointer.\<close>

definition new_record :: "store \<Rightarrow> record_obj \<Rightarrow> store \<times> addr" where
  "new_record st ob = (st\<lparr>record_objs := record_objs st @ [ob]\<rparr>, length (record_objs st))"

text \<open>The assignment \<^verbatim>\<open>c.next = x\<close> through the pointer \<open>c\<close>.\<close>

definition set_next :: "store \<Rightarrow> addr \<Rightarrow> addr option \<Rightarrow> store option" where
  "set_next st c x =
     do { co \<leftarrow> load (record_objs st) c;
          Some (st\<lparr>record_objs := (record_objs st)[c := co\<lparr>obj_next := x\<rparr>]\<rparr>) }"

text \<open>The assignment \<^verbatim>\<open>m[n] = a\<close> to the map object \<open>m\<close>.\<close>

definition map_put :: "store \<Rightarrow> addr \<Rightarrow> string \<Rightarrow> addr \<Rightarrow> store option" where
  "map_put st m n a =
     do { f \<leftarrow> load (map_objs st) m;
          Some (st\<lparr>map_objs := (map_objs st)[m := f(n \<mapsto> a)]\<rparr>) }"

text \<open>
  \<^verbatim>\<open>current := map[string]*record{}\<close> followed by the loop that assigns every entry of the
  map \<open>m\<close> to it: a new map object with the entries of \<open>m\<close>.
\<close>

definition copy_map :: "store \<Rightarrow> addr \<Rightarrow> (store \<times> addr) option" where
  "copy_map st m =
     do { f \<leftarrow> load (map_objs st) m;
          Some (st\<lparr>map_objs := map_objs st @ [f]\<rparr>, length (map_objs st)) }"

text \<open>\<^verbatim>\<open>newLinkedListRecorder\<close>: two new empty maps and a new recorder object.\<close>

definition newLinkedListRecorder_st :: "store \<Rightarrow> store \<times> addr" where
  "newLinkedListRecorder_st st =
     (st\<lparr>map_objs := map_objs st @ [Map.empty, Map.empty],
         recorder_objs := recorder_objs st
           @ [\<lparr>first_map = length (map_objs st), current_map = Suc (length (map_objs st))\<rparr>]\<rparr>,
      length (recorder_objs st))"

text \<open>
  \<^verbatim>\<open>record.forward\<close> on the pointer \<open>r\<close>. It reads records and assigns to none, so it takes
  the record objects and returns no store. In a store whose \<^verbatim>\<open>next\<close> pointers form a cycle
  the recursion need not end.
\<close>

partial_function (option) forward_st :: "record_obj list \<Rightarrow> addr \<Rightarrow> time
    \<Rightarrow> (addr option \<times> bool) option" where
  "forward_st recs r to =
     do { ro \<leftarrow> load recs r;
          if to < obj_at ro then Some (None, True)
          else (case obj_next ro of
                  None \<Rightarrow> Some (Some r, False)
                | Some n \<Rightarrow>
                    do { no \<leftarrow> load recs n;
                         if to < obj_at no then Some (Some r, True) else forward_st recs n to }) }"

text \<open>\<^verbatim>\<open>linkedListRecorder.Inc\<close> on the recorder object \<open>r\<close>.\<close>

definition Inc_st :: "store \<Rightarrow> addr \<Rightarrow> string \<Rightarrow> 64 word \<Rightarrow> time \<Rightarrow> (store \<times> string option) option" where
  "Inc_st st r n v t =
     do { ro \<leftarrow> load (recorder_objs st) r;
          cm \<leftarrow> load (map_objs st) (current_map ro);
          (case cm n of
             Some cur \<Rightarrow>
               do { co \<leftarrow> load (record_objs st) cur;
                    if t < obj_at co then Some (st, Some (ignoring_message n t (obj_at co)))
                    else
                      do { let (st1, new) = new_record st
                             \<lparr>obj_value = obj_value co + v, obj_at = t, obj_next = None\<rparr>;
                           st2 \<leftarrow> set_next st1 cur (Some new);
                           st3 \<leftarrow> map_put st2 (current_map ro) n new;
                           Some (st3, None) } }
           | None \<Rightarrow>
               do { let (st1, new) = new_record st \<lparr>obj_value = v, obj_at = t, obj_next = None\<rparr>;
                    st2 \<leftarrow> map_put st1 (first_map ro) n new;
                    st3 \<leftarrow> map_put st2 (current_map ro) n new;
                    Some (st3, None) }) }"

text \<open>
  The first loop of \<^verbatim>\<open>Write\<close>. \<^verbatim>\<open>start\<close> is a pointer to the field \<^verbatim>\<open>at\<close> of a record: it is
  modelled by the pointer to that record, and \<^verbatim>\<open>*start\<close> reads the field in the store.
\<close>

definition earlier_st :: "record_obj list \<Rightarrow> (string \<rightharpoonup> addr) \<Rightarrow> addr option \<Rightarrow> string
    \<Rightarrow> addr option option" where
  "earlier_st recs fst_map start n =
     (case fst_map n of
        None \<Rightarrow> Some start
      | Some f \<Rightarrow>
          do { fo \<leftarrow> load recs f;
               (case start of
                  None \<Rightarrow> Some (Some f)
                | Some s \<Rightarrow>
                    do { so \<leftarrow> load recs s;
                         Some (if obj_at fo < obj_at so then Some f else start) }) })"

fun start_st :: "record_obj list \<Rightarrow> (string \<rightharpoonup> addr) \<Rightarrow> string list \<Rightarrow> addr option
    \<Rightarrow> addr option option" where
  "start_st recs fst_map [] start = Some start"
| "start_st recs fst_map (n # ns) start =
     do { s \<leftarrow> earlier_st recs fst_map start n; start_st recs fst_map ns s }"

text \<open>The loop over \<^verbatim>\<open>current\<close> inside one time step; \<open>cur\<close> is the local map object.\<close>

fun range_current_st :: "('w, 'e) writer \<Rightarrow> time \<Rightarrow> string list \<Rightarrow> addr \<Rightarrow> store \<Rightarrow> 'w \<Rightarrow> bool
    \<Rightarrow> (string \<times> 64 word) list
    \<Rightarrow> (store \<times> 'w \<times> bool \<times> (string \<times> 64 word) list \<times> 'e option) option" where
  "range_current_st wr now [] cur st w active em = Some (st, w, active, em, None)"
| "range_current_st wr now (n # ns) cur st w active em =
     do { cm \<leftarrow> load (map_objs st) cur;
          (case cm n of
             None \<Rightarrow> range_current_st wr now ns cur st w active em
           | Some r \<Rightarrow>
               do { fw \<leftarrow> forward_st (record_objs st) r now;
                    (case fw of
                       (None, hasMore) \<Rightarrow> range_current_st wr now ns cur st w active em
                     | (Some nx, hasMore) \<Rightarrow>
                         do { st' \<leftarrow> (if hasMore then map_put st cur n nx else Some st);
                              no \<leftarrow> load (record_objs st') nx;
                              (case wr w (sample_line n (obj_value no) now) of
                                 (w', Some e) \<Rightarrow> Some (st', w', active \<or> hasMore, em, Some e)
                               | (w', None) \<Rightarrow>
                                   range_current_st wr now ns cur st' w' (active \<or> hasMore)
                                     (em @ [(n, obj_value no)])) }) }) }"

text \<open>The outer loop.\<close>

partial_function (option) walk_st :: "('w, 'e) writer \<Rightarrow> (nat \<Rightarrow> string list) \<Rightarrow> duration \<Rightarrow> nat
    \<Rightarrow> time \<Rightarrow> addr \<Rightarrow> store \<Rightarrow> 'w \<Rightarrow> (time \<times> (string \<times> 64 word) list) list
    \<Rightarrow> (store \<times> ('w, 'e) outcome) option" where
  "walk_st wr ords resolution k now cur st w tr =
     (case range_current_st wr now (ords (Suc k)) cur st w False [] of
        None \<Rightarrow> None
      | Some (st', w', active, em, e) \<Rightarrow>
          (case e of
             Some e' \<Rightarrow> Some (st', \<lparr>sink = w', err = Some (WriterError e'), trace = tr @ [(now, em)]\<rparr>)
           | None \<Rightarrow>
               if \<not> active then Some (st', \<lparr>sink = w', err = None, trace = tr @ [(now, em)]\<rparr>)
               else walk_st wr ords resolution (Suc k) (now + resolution) cur st' w' (tr @ [(now, em)])))"

text \<open>
  \<^verbatim>\<open>linkedListRecorder.Write\<close> on the recorder object \<open>r\<close>: the store after the call and the
  outcome.
\<close>

definition Write_st :: "('w, 'e) writer \<Rightarrow> (nat \<Rightarrow> string list) \<Rightarrow> store \<Rightarrow> addr \<Rightarrow> 'w
    \<Rightarrow> duration \<Rightarrow> (store \<times> ('w, 'e) outcome) option" where
  "Write_st wr ords st r w resolution =
     do { ro \<leftarrow> load (recorder_objs st) r;
          fm \<leftarrow> load (map_objs st) (first_map ro);
          start \<leftarrow> start_st (record_objs st) fm (ords 0) None;
          (case start of
             None \<Rightarrow> Some (st, \<lparr>sink = w, err = Some ErrNoRecords, trace = []\<rparr>)
           | Some s \<Rightarrow>
               do { (st1, cur) \<leftarrow> copy_map st (first_map ro);
                    so \<leftarrow> load (record_objs st1) s;
                    walk_st wr ords resolution 0 (obj_at so) cur st1 w [] }) }"

text \<open>A sequence of \<^verbatim>\<open>Inc\<close> calls on the recorder object \<open>r\<close>, in call order.\<close>

fun Incs_st :: "event list \<Rightarrow> store \<Rightarrow> addr \<Rightarrow> store option" where
  "Incs_st [] st r = Some st"
| "Incs_st ((n, v, t) # evs) st r = do { (st', msg) \<leftarrow> Inc_st st r n v t; Incs_st evs st' r }"

section \<open>Metrics\<close>

text \<open>\<^verbatim>\<open>Metric\<close> without its recorder pointer, which is passed along explicitly.\<close>

record Metric =
  name :: string
  labels :: labels

text \<open>\<^verbatim>\<open>Metric.Inc\<close>: the identity is \<^verbatim>\<open>name{labels}\<close>; a panic of \<^verbatim>\<open>labels.String\<close> ends it.\<close>

definition Metric_Inc :: "(string \<Rightarrow> string) \<Rightarrow> Metric \<Rightarrow> linkedListRecorder \<Rightarrow> 64 word \<Rightarrow> time
    \<Rightarrow> panic + linkedListRecorder \<times> string option" where
  "Metric_Inc quote m r v t =
     (case labels_String quote (labels m) of
        Inl p \<Rightarrow> Inl p
      | Inr ls \<Rightarrow> Inr (Inc r (name m @ ''{'' @ ls @ ''}'') v t))"

section \<open>Notions used to state the properties\<close>

subsection \<open>Chains as lists, and the increments a series accepted\<close>

text \<open>The (value, at) pairs of a chain, from the given node to the last one.\<close>

fun nodes :: "record_node \<Rightarrow> (64 word \<times> time) list" where
  "nodes (Record v a None) = [(v, a)]"
| "nodes (Record v a (Some r)) = (v, a) # nodes r"

text \<open>The chain of a series as \<^verbatim>\<open>r.first\<close> sees it; empty for an unknown series.\<close>

definition chain :: "linkedListRecorder \<Rightarrow> string \<Rightarrow> (64 word \<times> time) list" where
  "chain r n = (case first r n of None \<Rightarrow> [] | Some c \<Rightarrow> nodes c)"

text \<open>
  The accepted increments of series \<open>n\<close> among the calls \<open>evs\<close>, as (amount, timestamp)
  in call order: a call for \<open>n\<close> is accepted when it is the first one for \<open>n\<close> or when
  its timestamp is not before the timestamp of the last accepted one.
\<close>

definition accepted :: "string \<Rightarrow> event list \<Rightarrow> (64 word \<times> time) list" where
  "accepted n evs =
     foldl (\<lambda>acc (m, a, t). if m = n \<and> (acc = [] \<or> snd (last acc) \<le> t) then acc @ [(a, t)] else acc)
       [] evs"

text \<open>
  The sum of the amounts of the accepted increments of series \<open>n\<close> whose timestamp is at
  most \<open>now\<close>, as a natural number.
\<close>

definition total_until :: "string \<Rightarrow> event list \<Rightarrow> time \<Rightarrow> nat" where
  "total_until n evs now =
     sum_list (map (\<lambda>(a, t). unat a) (filter (\<lambda>(a, t). t \<le> now) (accepted n evs)))"

text \<open>Running totals of the amounts, in \<^verbatim>\<open>uint64\<close> arithmetic, starting from \<open>s\<close>.\<close>

fun running :: "64 word \<Rightarrow> (64 word \<times> time) list \<Rightarrow> (64 word \<times> time) list" where
  "running s [] = []"
| "running s ((a, t) # xs) = (s + a, t) # running (s + a) xs"

text \<open>The tail node that \<open>current\<close> holds for a chain with the given nodes.\<close>

definition tail_of :: "(64 word \<times> time) list \<Rightarrow> record_node" where
  "tail_of xs = Record (fst (last xs)) (snd (last xs)) None"

text \<open>
  The recorder holds series \<open>n\<close> as the accepted increments \<open>acc\<close>: no entry in either
  map when there are none, otherwise the chain of their running totals under \<open>first\<close>
  and its last node under \<open>current\<close>.
\<close>

definition represents :: "linkedListRecorder \<Rightarrow> string \<Rightarrow> (64 word \<times> time) list \<Rightarrow> bool" where
  "represents r n acc \<longleftrightarrow>
     (if acc = [] then first r n = None \<and> current r n = None
      else \<exists>c. first r n = Some c \<and> nodes c = running 0 acc
                \<and> current r n = Some (tail_of (running 0 acc)))"

subsection \<open>The value a chain shows at a time\<close>

text \<open>
  \<open>v\<close> is the value of the latest node of \<open>xs\<close> whose timestamp is at most \<open>now\<close>: the
  nodes before it are not later than \<open>now\<close>, the nodes after it are.
\<close>

definition shows_at :: "(64 word \<times> time) list \<Rightarrow> time \<Rightarrow> 64 word \<Rightarrow> bool" where
  "shows_at xs now v \<longleftrightarrow>
     (\<exists>P t R. xs = P @ (v, t) # R \<and> (\<forall>p\<in>set P. snd p \<le> now) \<and> t \<le> now \<and> (\<forall>q\<in>set R. now < snd q))"

text \<open>Every cursor points into the chain of its series.\<close>

definition cursors_ok :: "(string \<rightharpoonup> record_node) \<Rightarrow> (string \<rightharpoonup> record_node) \<Rightarrow> bool" where
  "cursors_ok fm cur \<longleftrightarrow> (\<forall>n x. cur n = Some x \<longrightarrow> (\<exists>c pre. fm n = Some c \<and> nodes c = pre @ nodes x))"

definition chains_sorted :: "(string \<rightharpoonup> record_node) \<Rightarrow> bool" where
  "chains_sorted fm \<longleftrightarrow> (\<forall>n c. fm n = Some c \<longrightarrow> sorted (map snd (nodes c)))"

definition samples_ok :: "(string \<rightharpoonup> record_node) \<Rightarrow> time \<Rightarrow> (string \<times> 64 word) list \<Rightarrow> bool" where
  "samples_ok fm now em \<longleftrightarrow> (\<forall>(n, v)\<in>set em. \<exists>c. fm n = Some c \<and> shows_at (nodes c) now v)"

definition trace_ok :: "(string \<rightharpoonup> record_node) \<Rightarrow> (time \<times> (string \<times> 64 word) list) list \<Rightarrow> bool" where
  "trace_ok fm tr \<longleftrightarrow> (\<forall>(now, em)\<in>set tr. samples_ok fm now em)"

subsection \<open>One time step, series by series\<close>

text \<open>
  What \<^verbatim>\<open>forward\<close> returns for the cursor of series \<open>n\<close>, when the series has a cursor
  and has started.
\<close>

definition chosen :: "(string \<rightharpoonup> record_node) \<Rightarrow> time \<Rightarrow> string \<Rightarrow> (record_node \<times> bool) option" where
  "chosen cur now n =
     (case cur n of
        None \<Rightarrow> None
      | Some x \<Rightarrow> (case forward x now of (None, hasMore) \<Rightarrow> None | (Some x', hasMore) \<Rightarrow> Some (x', hasMore)))"

definition step_samples :: "(string \<rightharpoonup> record_node) \<Rightarrow> time \<Rightarrow> string list \<Rightarrow> (string \<times> 64 word) list" where
  "step_samples cur now ns = List.map_filter (\<lambda>n. map_option (\<lambda>(x', hasMore). (n, val x')) (chosen cur now n)) ns"

definition step_cursors :: "(string \<rightharpoonup> record_node) \<Rightarrow> time \<Rightarrow> string list \<Rightarrow> (string \<rightharpoonup> record_node)" where
  "step_cursors cur now ns =
     (\<lambda>n. if n \<in> set ns then (case chosen cur now n of Some (x', True) \<Rightarrow> Some x' | _ \<Rightarrow> cur n) else cur n)"

definition step_active :: "(string \<rightharpoonup> record_node) \<Rightarrow> time \<Rightarrow> string list \<Rightarrow> bool" where
  "step_active cur now ns \<longleftrightarrow> (\<exists>n\<in>set ns. \<exists>x'. chosen cur now n = Some (x', True))"

text \<open>
  Writing a list of strings to a writer, one after the other, up to the first write that
  reports an error: the writer's state after the last write made, and that error.
\<close>

fun write_all :: "('w, 'e) writer \<Rightarrow> 'w \<Rightarrow> string list \<Rightarrow> 'w \<times> 'e option" where
  "write_all wr w [] = (w, None)"
| "write_all wr w (s # ss) =
     (case wr w s of (w', Some e) \<Rightarrow> (w', Some e) | (w', None) \<Rightarrow> write_all wr w' ss)"

text \<open>A writer none of whose writes reports an error, whatever its state.\<close>

definition never_fails :: "('w, 'e) writer \<Rightarrow> bool" where
  "never_fails wr \<longleftrightarrow> (\<forall>w s. snd (wr w s) = None)"

text \<open>The lines of the samples of one step, and of a whole trace, in the order written.\<close>

definition step_lines :: "time \<Rightarrow> (string \<times> 64 word) list \<Rightarrow> string list" where
  "step_lines now em = map (\<lambda>(n, v). sample_line n v now) em"

definition trace_lines :: "(time \<times> (string \<times> 64 word) list) list \<Rightarrow> string list" where
  "trace_lines tr = concat (map (\<lambda>(now, em). step_lines now em) tr)"

text \<open>
  What the loop of one step has done to the writer, from state \<open>w\<close> to state \<open>w'\<close>: it
  wrote the lines of the samples \<open>new\<close>, all accepted, and then either stopped (\<open>e\<close> is
  \<open>None\<close>) or made one more write of a sample line, which failed with \<open>e\<close> and left \<open>w'\<close>.
\<close>

definition step_written :: "('w, 'e) writer \<Rightarrow> time \<Rightarrow> 'w \<Rightarrow> (string \<times> 64 word) list \<Rightarrow> 'w
    \<Rightarrow> 'e option \<Rightarrow> bool" where
  "step_written wr now w new w' e \<longleftrightarrow>
     (case e of
        None \<Rightarrow> write_all wr w (step_lines now new) = (w', None)
      | Some e' \<Rightarrow> (\<exists>wb n v. write_all wr w (step_lines now new) = (wb, None)
                      \<and> wr wb (sample_line n v now) = (w', Some e')))"

text \<open>The same for a whole walk that started with the writer in state \<open>w\<close> and added \<open>tr\<close>.\<close>

definition written :: "('w, 'e) writer \<Rightarrow> 'w \<Rightarrow> (time \<times> (string \<times> 64 word) list) list
    \<Rightarrow> ('w, 'e) outcome \<Rightarrow> bool" where
  "written wr w tr out \<longleftrightarrow>
     (case err out of
        None \<Rightarrow> write_all wr w (trace_lines tr) = (sink out, None)
      | Some e \<Rightarrow> (\<exists>e' wb n v. e = WriterError e' \<and> write_all wr w (trace_lines tr) = (wb, None)
                     \<and> wr wb (sample_line n v (fst (last tr))) = (sink out, Some e')))"

text \<open>Two traces with the same steps and, step by step, the same samples in some order.\<close>

definition same_steps :: "(time \<times> (string \<times> 64 word) list) list \<Rightarrow> (time \<times> (string \<times> 64 word) list) list \<Rightarrow> bool" where
  "same_steps tr1 tr2 \<longleftrightarrow> list_all2 (\<lambda>(t1, em1) (t2, em2). t1 = t2 \<and> mset em1 = mset em2) tr1 tr2"

subsection \<open>The number of steps the specification states\<close>

text \<open>
  The specification's count of time steps, in its words: the ceiling of (the maximum
  last-node timestamp across all series minus the minimum head timestamp across all
  series) divided by the resolution, plus one. \<open>ns\<close> lists the series.
\<close>

definition stated_steps :: "string list \<Rightarrow> linkedListRecorder \<Rightarrow> duration \<Rightarrow> int" where
  "stated_steps ns r resolution =
     (let heads = map (\<lambda>n. snd (hd (chain r n))) ns;
          lasts = map (\<lambda>n. snd (last (chain r n))) ns
      in - ((- (Max (set lasts) - Min (set heads))) div resolution) + 1)"

subsection \<open>Termination of the walk\<close>

text \<open>No node of any chain is later than \<open>M\<close>.\<close>

definition bounded_by :: "(string \<rightharpoonup> record_node) \<Rightarrow> time \<Rightarrow> bool" where
  "bounded_by fm M \<longleftrightarrow> (\<forall>n c q. fm n = Some c \<longrightarrow> q \<in> set (nodes c) \<longrightarrow> snd q \<le> M)"

text \<open>
  The number of steps from \<open>now\<close> on until the time reaches \<open>M\<close>, the step at \<open>now\<close>
  included: one more than the ceiling of \<open>(M - now) / resolution\<close>.
\<close>

definition steps_left :: "time \<Rightarrow> duration \<Rightarrow> time \<Rightarrow> nat" where
  "steps_left M resolution now = (if now < M then nat (- ((- (M - now)) div resolution)) + 1 else 1)"

subsection \<open>When the walk goes on\<close>

text \<open>
  Some series is live at \<open>now\<close>: it has started (its first record is not after \<open>now\<close>)
  and it has a record after \<open>now\<close>.
\<close>

definition live :: "(string \<rightharpoonup> record_node) \<Rightarrow> time \<Rightarrow> bool" where
  "live fm now \<longleftrightarrow> (\<exists>n c. fm n = Some c \<and> at c \<le> now \<and> now < snd (last (nodes c)))"

text \<open>
  The cursors at the beginning of the step at \<open>now\<close>: one for every series, pointing
  into its chain, at the first record or at a record that is not after \<open>now\<close>.
\<close>

definition cursors_at :: "(string \<rightharpoonup> record_node) \<Rightarrow> (string \<rightharpoonup> record_node) \<Rightarrow> time \<Rightarrow> bool" where
  "cursors_at fm cur now \<longleftrightarrow>
     (\<forall>n. (case fm n of
             None \<Rightarrow> cur n = None
           | Some c \<Rightarrow> (\<exists>x pre. cur n = Some x \<and> nodes c = pre @ nodes x \<and> (pre = [] \<or> at x \<le> now))))"

subsection \<open>What a recorder object holds in a store\<close>

text \<open>
  The map of first records and the map of current records that the recorder object \<open>r\<close>
  refers to, with their entries.
\<close>

definition first_of :: "store \<Rightarrow> addr \<Rightarrow> (string \<rightharpoonup> addr) option" where
  "first_of st r = do { ro \<leftarrow> load (recorder_objs st) r; load (map_objs st) (first_map ro) }"

definition current_of :: "store \<Rightarrow> addr \<Rightarrow> (string \<rightharpoonup> addr) option" where
  "current_of st r = do { ro \<leftarrow> load (recorder_objs st) r; load (map_objs st) (current_map ro) }"

text \<open>The (value, at) pairs of the chain that starts at the record \<open>a\<close>, read in the store.\<close>

partial_function (option) nodes_st :: "record_obj list \<Rightarrow> addr \<Rightarrow> (64 word \<times> time) list option" where
  "nodes_st recs a =
     do { ob \<leftarrow> load recs a;
          (case obj_next ob of
             None \<Rightarrow> Some [(obj_value ob, obj_at ob)]
           | Some b \<Rightarrow> do { rest \<leftarrow> nodes_st recs b; Some ((obj_value ob, obj_at ob) # rest) }) }"

text \<open>The chain of a series as the recorder object \<open>r\<close> sees it; empty for an unknown series.\<close>

definition chain_of :: "store \<Rightarrow> addr \<Rightarrow> string \<Rightarrow> (64 word \<times> time) list option" where
  "chain_of st r n =
     do { fm \<leftarrow> first_of st r;
          (case fm n of None \<Rightarrow> Some [] | Some a \<Rightarrow> nodes_st (record_objs st) a) }"

text \<open>
  Two stores with the same record objects and recorder objects, and the same map objects
  except possibly the one at \<open>m\<close>.
\<close>

definition same_but :: "store \<Rightarrow> store \<Rightarrow> addr \<Rightarrow> bool" where
  "same_but st st' m \<longleftrightarrow>
     record_objs st' = record_objs st \<and> recorder_objs st' = recorder_objs st
     \<and> length (map_objs st') = length (map_objs st)
     \<and> (\<forall>a < length (map_objs st). a \<noteq> m \<longrightarrow> map_objs st' ! a = map_objs st ! a)"

subsection \<open>Stores that hold a recorder of the first model\<close>

text \<open>
  The record at \<open>a\<close> and the records it reaches are the node \<open>x\<close> of the first model,
  field by field.
\<close>

fun node_at :: "record_obj list \<Rightarrow> addr \<Rightarrow> record_node \<Rightarrow> bool" where
  "node_at recs a (Record v t None) =
     (case load recs a of
        None \<Rightarrow> False
      | Some ob \<Rightarrow> obj_value ob = v \<and> obj_at ob = t \<and> obj_next ob = None)"
| "node_at recs a (Record v t (Some x)) =
     (case load recs a of
        None \<Rightarrow> False
      | Some ob \<Rightarrow> obj_value ob = v \<and> obj_at ob = t
          \<and> (case obj_next ob of None \<Rightarrow> False | Some b \<Rightarrow> node_at recs b x))"

text \<open>A map from names to pointers holds the map \<open>f\<close> from names to nodes.\<close>

definition map_holds :: "record_obj list \<Rightarrow> (string \<rightharpoonup> addr) \<Rightarrow> (string \<rightharpoonup> record_node) \<Rightarrow> bool" where
  "map_holds recs m f \<longleftrightarrow>
     (\<forall>n. case m n of None \<Rightarrow> f n = None
          | Some a \<Rightarrow> (case f n of None \<Rightarrow> False | Some x \<Rightarrow> node_at recs a x))"

text \<open>The map object at \<open>m\<close> holds \<open>f\<close>.\<close>

definition cursors_hold :: "store \<Rightarrow> addr \<Rightarrow> (string \<rightharpoonup> record_node) \<Rightarrow> bool" where
  "cursors_hold st m f \<longleftrightarrow>
     (case load (map_objs st) m of None \<Rightarrow> False | Some mo \<Rightarrow> map_holds (record_objs st) mo f)"

text \<open>The pointer \<^verbatim>\<open>start\<close> of the first loop holds the time \<open>t\<close>.\<close>

definition start_holds :: "record_obj list \<Rightarrow> addr option \<Rightarrow> time option \<Rightarrow> bool" where
  "start_holds recs s t \<longleftrightarrow>
     (case s of None \<Rightarrow> t = None
      | Some a \<Rightarrow> (case load recs a of None \<Rightarrow> False | Some ob \<Rightarrow> t = Some (obj_at ob)))"

text \<open>The recorder object at \<open>r\<close> holds the recorder \<open>rec\<close> of the first model.\<close>

definition holds :: "store \<Rightarrow> addr \<Rightarrow> linkedListRecorder \<Rightarrow> bool" where
  "holds st r rec \<longleftrightarrow>
     (case load (recorder_objs st) r of
        None \<Rightarrow> False
      | Some ro \<Rightarrow> cursors_hold st (first_map ro) (first rec)
                 \<and> cursors_hold st (current_map ro) (current rec))"

text \<open>
  The last record of the chain that starts at \<open>a\<close>, for a chain that is the node \<open>x\<close>.
\<close>

fun tail_addr :: "record_obj list \<Rightarrow> addr \<Rightarrow> record_node \<Rightarrow> addr" where
  "tail_addr recs a (Record v t None) = a"
| "tail_addr recs a (Record v t (Some x)) =
     (case load recs a of
        None \<Rightarrow> a
      | Some ob \<Rightarrow> (case obj_next ob of None \<Rightarrow> a | Some b \<Rightarrow> tail_addr recs b x))"

text \<open>
  One series in both models: nothing in either, or a chain under the map of first records
  whose last record is the one under the map of current records.
\<close>

definition series_tracked :: "record_obj list \<Rightarrow> addr option \<Rightarrow> addr option \<Rightarrow> record_node option
    \<Rightarrow> record_node option \<Rightarrow> bool" where
  "series_tracked recs fa ca fx cx \<longleftrightarrow>
     (case fx of
        None \<Rightarrow> fa = None \<and> ca = None \<and> cx = None
      | Some x \<Rightarrow>
          (case fa of
             None \<Rightarrow> False
           | Some a \<Rightarrow> node_at recs a x \<and> ca = Some (tail_addr recs a x)
                        \<and> cx = Some (tail_of (nodes x))))"

text \<open>
  The recorder object at \<open>r\<close> is the recorder \<open>rec\<close> of the first model, with the sharing
  that \<^verbatim>\<open>Inc\<close> relies on: the two maps are different objects, every series is held as
  above, and no two series have the same current record.
\<close>

definition tracks :: "store \<Rightarrow> addr \<Rightarrow> linkedListRecorder \<Rightarrow> bool" where
  "tracks st r rec \<longleftrightarrow>
     (case load (recorder_objs st) r of
        None \<Rightarrow> False
      | Some ro \<Rightarrow>
          first_map ro \<noteq> current_map ro
          \<and> (case load (map_objs st) (first_map ro) of
                None \<Rightarrow> False
              | Some fm \<Rightarrow>
                  (case load (map_objs st) (current_map ro) of
                     None \<Rightarrow> False
                   | Some cm \<Rightarrow>
                       (\<forall>n. series_tracked (record_objs st) (fm n) (cm n) (first rec n) (current rec n))
                       \<and> inj_on cm (dom cm))))"

subsection \<open>Concrete recorders, visiting orders and writers\<close>

text \<open>The calls of \<^verbatim>\<open>TestLinkedListRecorder\<close>, from a start time \<open>T\<close>.\<close>

definition foo_events :: "time \<Rightarrow> event list" where
  "foo_events T = [(''foo'', 1, T), (''foo'', 1, T + 10 * Second), (''foo'', 1, T + 15 * Second),
     (''foo'', 1, T + 20 * Second), (''foo'', 1, T + 33 * Second)]"

definition foo_order :: "nat \<Rightarrow> string list" where
  "foo_order k = [''foo'']"

text \<open>Two series \<open>a\<close> and \<open>b\<close>, visited in either order.\<close>

definition ab_order :: "nat \<Rightarrow> string list" where
  "ab_order k = [''a'', ''b'']"

definition ba_order :: "nat \<Rightarrow> string list" where
  "ba_order k = [''b'', ''a'']"

text \<open>\<open>b\<close> starts while \<open>a\<close> still has a record to come.\<close>

definition overlap_events :: "event list" where
  "overlap_events = [(''a'', 1, 0), (''b'', 1, 25 * Second), (''a'', 1, 30 * Second)]"

text \<open>\<open>b\<close> starts only after the last record of \<open>a\<close>.\<close>

definition gap_events :: "event list" where
  "gap_events = [(''a'', 1, 0), (''b'', 1, 25 * Second)]"

definition late_events :: "event list" where
  "late_events = [(''a'', 1, 0), (''a'', 1, 10 * Second), (''b'', 1, 100 * Second),
     (''b'', 1, 110 * Second)]"

text \<open>Both series start at the same time.\<close>

definition same_time_events :: "event list" where
  "same_time_events = [(''a'', 1, 0), (''b'', 1, 0)]"

text \<open>The running total of \<open>foo\<close> passes the largest \<^verbatim>\<open>uint64\<close>.\<close>

definition overflow_events :: "event list" where
  "overflow_events = [(''foo'', 18446744073709551615, 0), (''foo'', 1, 10 * Second)]"

text \<open>
  A writer that holds the strings written to it, accepts the first write and fails on
  every later one after taking three characters of the string.
\<close>

definition short_writer :: "(string list, string) writer" where
  "short_writer w s = (if w = [] then ([s], None) else (w @ [take 3 s], Some ''short write''))"

text \<open>
  The store after \<^verbatim>\<open>newLinkedListRecorder\<close> and the calls of \<^verbatim>\<open>TestLinkedListRecorder\<close> from
  start time \<open>0\<close>: five records linked in a chain, the map of first records, the map of
  current records and the recorder.
\<close>

definition empty_store :: store where
  "empty_store = \<lparr>record_objs = [], map_objs = [], recorder_objs = []\<rparr>"

definition foo_store :: store where
  "foo_store = \<lparr>record_objs =
       [\<lparr>obj_value = 1, obj_at = 0, obj_next = Some 1\<rparr>,
        \<lparr>obj_value = 2, obj_at = 10 * Second, obj_next = Some 2\<rparr>,
        \<lparr>obj_value = 3, obj_at = 15 * Second, obj_next = Some 3\<rparr>,
        \<lparr>obj_value = 4, obj_at = 20 * Second, obj_next = Some 4\<rparr>,
        \<lparr>obj_value = 5, obj_at = 33 * Second, obj_next = None\<rparr>],
     map_objs = [[''foo'' \<mapsto> 0], [''foo'' \<mapsto> 4]],
     recorder_objs = [\<lparr>first_map = 0, current_map = 1\<rparr>]\<rparr>"

text \<open>
  The same store with one more map object, the map \<^verbatim>\<open>current\<close> of a call of \<^verbatim>\<open>Write\<close> as
  the call leaves it, its cursor on the fourth record.
\<close>

definition foo_store_written :: store where
  "foo_store_written = foo_store\<lparr>map_objs := map_objs foo_store @ [[''foo'' \<mapsto> 3]]\<rparr>"

text \<open>A writer whose every write fails.\<close>

definition closed_writer :: "(string, string) writer" where
  "closed_writer w s = (w, Some ''closed'')"

section \<open>Lemmas\<close>

lemma nodes_not_Nil [simp]: "nodes c \<noteq> []"
  by (induction c rule: nodes.induct) simp_all

lemma hd_nodes [simp]: "hd (nodes c) = (val c, at c)"
  by (induction c rule: nodes.induct) simp_all

lemma nodes_set_tail_next: "nodes (set_tail_next c new) = nodes c @ nodes new"
  by (induction c new rule: set_tail_next.induct) simp_all

lemma running_append: "running s (xs @ [(a, t)]) = running s xs @ [(fst (last ((s, t) # running s xs)) + a, t)]"
  by (induction s xs rule: running.induct) auto

lemma running_Nil_iff [simp]: "running s xs = [] \<longleftrightarrow> xs = []"
  by (cases xs) auto

lemma map_snd_running [simp]: "map snd (running s xs) = map snd xs"
  by (induction s xs rule: running.induct) auto

lemma sorted_le_last: "sorted (xs :: int list) \<Longrightarrow> xs \<noteq> [] \<Longrightarrow> \<forall>x\<in>set xs. x \<le> last xs"
  by (induction xs) auto

lemma sorted_accepted: "sorted (map snd (accepted n evs))"
proof (induction evs rule: rev_induct)
  case Nil
  show ?case by (simp add: accepted_def)
next
  case (snoc e evs)
  obtain m a t where e: "e = (m, a, t)" by (cases e)
  show ?case
  proof (cases "m = n \<and> (accepted n evs = [] \<or> snd (last (accepted n evs)) \<le> t)")
    case False
    then have "accepted n (evs @ [e]) = accepted n evs"
      by (auto simp: accepted_def e)
    with snoc show ?thesis by simp
  next
    case True
    then have eq: "accepted n (evs @ [e]) = accepted n evs @ [(a, t)]"
      by (auto simp: accepted_def e)
    have "\<forall>x\<in>set (map snd (accepted n evs)). x \<le> t"
    proof (cases "accepted n evs = []")
      case True then show ?thesis by simp
    next
      case False
      with True have le: "snd (last (accepted n evs)) \<le> t" by simp
      have "\<forall>x\<in>set (map snd (accepted n evs)). x \<le> last (map snd (accepted n evs))"
        using snoc False by (simp add: sorted_le_last)
      then show ?thesis using le False by (auto simp: last_map)
    qed
    with snoc show ?thesis unfolding eq by (simp add: sorted_append)
  qed
qed

lemma accepted_Nil [simp]: "accepted n [] = []"
  by (simp add: accepted_def)

lemma accepted_snoc:
  "accepted n (evs @ [(m, a, t)]) =
     (if m = n \<and> (accepted n evs = [] \<or> snd (last (accepted n evs)) \<le> t)
      then accepted n evs @ [(a, t)] else accepted n evs)"
  by (simp add: accepted_def)

lemma Incs_Nil [simp]: "Incs [] r = r"
  by (simp add: Incs_def)

lemma Incs_snoc: "Incs (evs @ [(m, a, t)]) r = fst (Inc (Incs evs r) m a t)"
  by (simp add: Incs_def)

lemma last_running_snoc:
  "last (running s (xs @ [(a, t)])) = (fst (last ((s, t) # running s xs)) + a, t)"
  by (simp add: running_append)

lemma Incs_represents: "represents (Incs evs newLinkedListRecorder) n (accepted n evs)"
proof (induction evs rule: rev_induct)
  case Nil
  show ?case by (simp add: represents_def newLinkedListRecorder_def)
next
  case (snoc e evs)
  obtain m a t where e: "e = (m, a, t)" by (cases e)
  let ?r = "Incs evs newLinkedListRecorder"
  let ?acc = "accepted n evs"
  show ?case
  proof (cases "m = n")
    case False
    then have "first (fst (Inc ?r m a t)) n = first ?r n" "current (fst (Inc ?r m a t)) n = current ?r n"
      by (auto simp: Inc_def Let_def split: option.splits)
    with snoc False show ?thesis
      by (simp add: e Incs_snoc accepted_snoc represents_def)
  next
    case True
    show ?thesis
    proof (cases "?acc = []")
      case True
      with snoc have "first ?r n = None" "current ?r n = None"
        by (simp_all add: represents_def)
      then show ?thesis using True \<open>m = n\<close>
        by (simp add: e Incs_snoc accepted_snoc represents_def Inc_def Let_def tail_of_def)
    next
      case False
      with snoc obtain c where c: "first ?r n = Some c" "nodes c = running 0 ?acc"
        "current ?r n = Some (tail_of (running 0 ?acc))"
        by (auto simp: represents_def)
      have lst: "snd (last (running 0 ?acc)) = snd (last ?acc)"
        using False by (metis last_map map_snd_running running_Nil_iff)
      show ?thesis
      proof (cases "t < snd (last ?acc)")
        case True
        then show ?thesis using c False \<open>m = n\<close> lst
          by (simp add: e Incs_snoc accepted_snoc represents_def Inc_def tail_of_def)
      next
        case nlt: False
        have "running 0 (?acc @ [(a, t)]) = running 0 ?acc @ [(fst (last (running 0 ?acc)) + a, t)]"
          using False by (simp add: running_append)
        then show ?thesis using c False \<open>m = n\<close> lst nlt
          by (simp add: e Incs_snoc accepted_snoc represents_def Inc_def tail_of_def Let_def
              nodes_set_tail_next)
      qed
    qed
  qed
qed

lemma sorted_nodes_ge: "sorted (map snd (nodes c)) \<Longrightarrow> q \<in> set (nodes c) \<Longrightarrow> at c \<le> snd q"
  by (induction c rule: nodes.induct) auto

lemma forward_Some:
  "forward c to = (Some x, hasMore) \<Longrightarrow>
     \<exists>pre. nodes c = pre @ nodes x \<and> (\<forall>p\<in>set pre. snd p \<le> to) \<and> at x \<le> to
        \<and> (\<forall>q\<in>set (tl (nodes x)). sorted (map snd (nodes c)) \<longrightarrow> to < snd q)
        \<and> hasMore = (nxt x \<noteq> None)"
proof (induction c to rule: forward.induct)
  case (1 v a n to)
  show ?case
  proof (cases n)
    case None
    with "1.prems" show ?thesis
      by (auto split: if_splits intro: exI[of _ "[]"])
  next
    case (Some r)
    show ?thesis
    proof (cases "to < at r")
      case True
      with Some "1.prems" have x: "x = Record v a (Some r)" "hasMore" "a \<le> to"
        by (auto split: if_splits)
      have "\<forall>q\<in>set (nodes r). sorted (map snd (nodes (Record v a (Some r)))) \<longrightarrow> to < snd q"
      proof (intro ballI impI)
        fix q assume q: "q \<in> set (nodes r)" and srt: "sorted (map snd (nodes (Record v a (Some r))))"
        from srt have "sorted (map snd (nodes r))" by simp
        from sorted_nodes_ge[OF this q] True show "to < snd q" by simp
      qed
      with x Some show ?thesis
        by (auto intro!: exI[of _ "[]"])
    next
      case False
      with Some "1.prems" have fw: "forward r to = (Some x, hasMore)" and le: "a \<le> to"
        by (auto split: if_splits)
      from "1.IH"[OF _ Some False fw] le obtain pre where
        pre: "nodes r = pre @ nodes x" "\<forall>p\<in>set pre. snd p \<le> to" "at x \<le> to"
          "\<forall>q\<in>set (tl (nodes x)). sorted (map snd (nodes r)) \<longrightarrow> to < snd q"
          "hasMore = (nxt x \<noteq> None)"
        by auto
      show ?thesis
        using pre le Some by (intro exI[of _ "(v, a) # pre"]) auto
    qed
  qed
qed

lemma nodes_Cons: "nodes c = (val c, at c) # tl (nodes c)"
  by (metis hd_nodes list.collapse nodes_not_Nil)

lemma forward_shows:
  assumes fw: "forward x now = (Some x', hasMore)"
    and c: "nodes c = pre @ nodes x" and srt: "sorted (map snd (nodes c))"
  shows "shows_at (nodes c) now (val x') \<and> (\<exists>pre'. nodes c = pre' @ nodes x')"
proof -
  from srt c have sx: "sorted (map snd (nodes x))"
    by (simp add: sorted_append)
  from forward_Some[OF fw] sx obtain pre' where
    pre': "nodes x = pre' @ nodes x'" "\<forall>p\<in>set pre'. snd p \<le> now" "at x' \<le> now"
      "\<forall>q\<in>set (tl (nodes x')). now < snd q"
    by auto
  have eq: "nodes c = (pre @ pre') @ (val x', at x') # tl (nodes x')"
    using c pre'(1) nodes_Cons[of x'] by simp
  have "\<forall>p\<in>set (pre @ pre'). snd p \<le> at x'"
    using srt unfolding eq by (auto simp: sorted_append)
  with pre'(3) have "\<forall>p\<in>set (pre @ pre'). snd p \<le> now"
    by fastforce
  with eq pre'(3,4) have "shows_at (nodes c) now (val x')"
    unfolding shows_at_def by blast
  moreover have "nodes c = (pre @ pre') @ nodes x'"
    using c pre'(1) by simp
  ultimately show ?thesis by blast
qed

lemma range_current_ok:
  assumes srt: "chains_sorted fm"
  shows "range_current wr now ns cur w act em = (cur', w', act', em', e) \<Longrightarrow> cursors_ok fm cur
     \<Longrightarrow> samples_ok fm now em \<Longrightarrow> cursors_ok fm cur' \<and> samples_ok fm now em'"
proof (induction ns arbitrary: cur w act em)
  case Nil
  then show ?case by simp
next
  case (Cons n ns)
  show ?case
  proof (cases "cur n")
    case None
    with Cons show ?thesis by simp
  next
    case (Some x)
    obtain nx hasMore where fw: "forward x now = (nx, hasMore)" by (cases "forward x now")
    show ?thesis
    proof (cases nx)
      case None
      with Cons Some fw show ?thesis by simp
    next
      case nx: (Some x')
      from Cons.prems(2) Some obtain c pre where c: "fm n = Some c" "nodes c = pre @ nodes x"
        unfolding cursors_ok_def by blast
      from srt c(1) have "sorted (map snd (nodes c))" by (simp add: chains_sorted_def)
      from forward_shows[OF fw[unfolded nx] c(2) this]
      obtain pre' where sh: "shows_at (nodes c) now (val x')" and suf: "nodes c = pre' @ nodes x'"
        by blast
      let ?cur = "if hasMore then cur(n \<mapsto> x') else cur"
      have ok: "cursors_ok fm ?cur"
        using Cons.prems(2) c(1) suf by (auto simp: cursors_ok_def)
      have em: "samples_ok fm now (em @ [(n, val x')])"
        using Cons.prems(3) c(1) sh by (auto simp: samples_ok_def)
      obtain w2 e2 where wr: "wr w (sample_line n (val x') now) = (w2, e2)"
        by (cases "wr w (sample_line n (val x') now)")
      show ?thesis
      proof (cases e2)
        case (Some err)
        with Cons.prems(1) \<open>cur n = Some x\<close> fw nx wr ok Cons.prems(3) show ?thesis
          by (auto simp: Let_def)
      next
        case None
        with Cons.prems(1) \<open>cur n = Some x\<close> fw nx wr
        have "range_current wr now ns ?cur w2 (act \<or> hasMore) (em @ [(n, val x')]) = (cur', w', act', em', e)"
          by (simp add: Let_def)
        from Cons.IH[OF this ok em] show ?thesis .
      qed
    qed
  qed
qed

lemma walk_ok:
  assumes srt: "chains_sorted fm"
    and w: "walk wr ords resolution k now cur w tr = Some out"
  shows "cursors_ok fm cur \<Longrightarrow> trace_ok fm tr \<Longrightarrow> trace_ok fm (trace out)"
proof -
  have "cursors_ok fm cur \<longrightarrow> trace_ok fm tr \<longrightarrow> trace_ok fm (trace out)"
  proof (rule walk.raw_induct[where P = "\<lambda>wr ords resolution k now cur w tr out.
            cursors_ok fm cur \<longrightarrow> trace_ok fm tr \<longrightarrow> trace_ok fm (trace out)", OF _ w])
    fix walk' :: "('a, 'b) writer \<Rightarrow> (nat \<Rightarrow> string list) \<Rightarrow> duration \<Rightarrow> nat \<Rightarrow> time
        \<Rightarrow> (string \<rightharpoonup> record_node) \<Rightarrow> 'a \<Rightarrow> (time \<times> (string \<times> 64 word) list) list
        \<Rightarrow> ('a, 'b) outcome option"
    fix wr ords resolution k now cur w tr out
    assume IH: "\<And>wr ords resolution k now cur w tr out. walk' wr ords resolution k now cur w tr = Some out
        \<Longrightarrow> cursors_ok fm cur \<longrightarrow> trace_ok fm tr \<longrightarrow> trace_ok fm (trace out)"
    assume step: "(case range_current wr now (ords (Suc k)) cur w False [] of
        (cur', w', active, em, e) \<Rightarrow>
          (case e of
             Some e' \<Rightarrow> Some \<lparr>sink = w', err = Some (WriterError e'), trace = tr @ [(now, em)]\<rparr>
           | None \<Rightarrow>
               if \<not> active then Some \<lparr>sink = w', err = None, trace = tr @ [(now, em)]\<rparr>
               else walk' wr ords resolution (Suc k) (now + resolution) cur' w' (tr @ [(now, em)]))) = Some out"
    show "cursors_ok fm cur \<longrightarrow> trace_ok fm tr \<longrightarrow> trace_ok fm (trace out)"
    proof (intro impI)
      assume ok: "cursors_ok fm cur" and tr: "trace_ok fm tr"
      obtain cur' w' active em e where rc:
        "range_current wr now (ords (Suc k)) cur w False [] = (cur', w', active, em, e)"
        by (metis prod_cases5)
      have "samples_ok fm now []" by (simp add: samples_ok_def)
      from range_current_ok[OF srt rc ok this]
      have ok': "cursors_ok fm cur'" and em: "samples_ok fm now em" by simp_all
      from tr em have tr': "trace_ok fm (tr @ [(now, em)])"
        by (simp add: trace_ok_def)
      show "trace_ok fm (trace out)"
      proof (cases "e = None \<and> active")
        case True
        with step rc have "walk' wr ords resolution (Suc k) (now + resolution) cur' w' (tr @ [(now, em)]) = Some out"
          by simp
        from IH[OF this] ok' tr' show ?thesis by simp
      next
        case False
        with step rc have "trace out = tr @ [(now, em)]"
          by (auto split: option.splits if_splits)
        with tr' show ?thesis by simp
      qed
    qed
  qed
  then show "cursors_ok fm cur \<Longrightarrow> trace_ok fm tr \<Longrightarrow> trace_ok fm (trace out)" by simp
qed

lemma chosen_upd_other: "m \<noteq> n \<Longrightarrow> chosen (cur(n \<mapsto> x)) now m = chosen cur now m"
  by (simp add: chosen_def)

lemma step_samples_upd: "n \<notin> set ns \<Longrightarrow> step_samples (cur(n \<mapsto> x)) now ns = step_samples cur now ns"
  unfolding step_samples_def List.map_filter_def
  by (induction ns) (auto simp: chosen_upd_other)

lemma step_active_upd: "n \<notin> set ns \<Longrightarrow> step_active (cur(n \<mapsto> x)) now ns = step_active cur now ns"
  unfolding step_active_def
  by (metis chosen_upd_other)

lemma step_samples_Cons:
  "step_samples cur now (n # ns) =
     (case chosen cur now n of None \<Rightarrow> [] | Some (x', hasMore) \<Rightarrow> [(n, val x')]) @ step_samples cur now ns"
  by (auto simp: step_samples_def List.map_filter_def split: option.splits)

lemma write_all_append:
  "write_all wr w (xs @ ys) =
     (case write_all wr w xs of (w', Some e) \<Rightarrow> (w', Some e) | (w', None) \<Rightarrow> write_all wr w' ys)"
proof (induction xs arbitrary: w)
  case Nil
  show ?case by simp
next
  case (Cons x xs)
  obtain w1 e1 where x: "wr w x = (w1, e1)" by (cases "wr w x")
  show ?case
  proof (cases e1)
    case None
    with x Cons show ?thesis by simp
  next
    case (Some e)
    with x show ?thesis by simp
  qed
qed

lemma write_all_snoc_ok:
  "write_all wr w xs = (w1, None) \<Longrightarrow> wr w1 s = (w2, None) \<Longrightarrow> write_all wr w (xs @ [s]) = (w2, None)"
  by (simp add: write_all_append)

lemma write_all_append_ok:
  "write_all wr w xs = (w1, None) \<Longrightarrow> write_all wr w (xs @ ys) = write_all wr w1 ys"
  by (simp add: write_all_append)

lemma write_all_never_fails:
  assumes "never_fails wr"
  shows "snd (write_all wr w ls) = None"
proof (induction ls arbitrary: w)
  case Nil
  show ?case by simp
next
  case (Cons l ls)
  obtain w1 e1 where l: "wr w l = (w1, e1)" by (cases "wr w l")
  with assms have "e1 = None" unfolding never_fails_def by (metis snd_conv)
  with l Cons show ?case by simp
qed

lemma step_lines_append [simp]: "step_lines now (xs @ ys) = step_lines now xs @ step_lines now ys"
  by (simp add: step_lines_def)

lemma range_current_total:
  assumes nf: "never_fails wr"
  shows "distinct ns \<Longrightarrow>
     range_current wr now ns cur w act em =
       (step_cursors cur now ns, fst (write_all wr w (step_lines now (step_samples cur now ns))),
        act \<or> step_active cur now ns, em @ step_samples cur now ns, None)"
proof (induction ns arbitrary: cur w act em)
  case Nil
  show ?case
    by (simp add: step_cursors_def step_samples_def step_active_def step_lines_def List.map_filter_def)
next
  case (Cons n ns)
  then have n: "n \<notin> set ns" and d: "distinct ns" by simp_all
  show ?case
  proof (cases "chosen cur now n")
    case None
    then have rc: "range_current wr now (n # ns) cur w act em = range_current wr now ns cur w act em"
      by (auto simp: chosen_def split: option.splits prod.splits)
    have "step_cursors cur now (n # ns) = step_cursors cur now ns"
      using None by (auto simp: step_cursors_def fun_eq_iff)
    moreover have "step_active cur now (n # ns) = step_active cur now ns"
      using None by (auto simp: step_active_def)
    ultimately show ?thesis
      unfolding rc Cons.IH[OF d] by (simp add: step_samples_Cons None)
  next
    case (Some p)
    obtain x' hasMore where p: "p = (x', hasMore)" by (cases p)
    from Some p obtain x where x: "cur n = Some x" "forward x now = (Some x', hasMore)"
      by (auto simp: chosen_def split: option.splits prod.splits)
    obtain w2 e2 where wr: "wr w (sample_line n (val x') now) = (w2, e2)"
      by (cases "wr w (sample_line n (val x') now)")
    with nf have e2: "e2 = None" unfolding never_fails_def by (metis snd_conv)
    let ?cur = "if hasMore then cur(n \<mapsto> x') else cur"
    have rc: "range_current wr now (n # ns) cur w act em =
        range_current wr now ns ?cur w2 (act \<or> hasMore) (em @ [(n, val x')])"
      using x wr e2 by (simp add: Let_def)
    have s: "step_samples ?cur now ns = step_samples cur now ns"
      using n by (simp add: step_samples_upd)
    have a: "step_active ?cur now ns = step_active cur now ns"
      using n by (simp add: step_active_upd)
    have c: "step_cursors ?cur now ns = step_cursors cur now (n # ns)"
    proof
      fix m
      show "step_cursors ?cur now ns m = step_cursors cur now (n # ns) m"
      proof (cases "m = n")
        case True
        with n Some p show ?thesis by (auto simp: step_cursors_def x)
      next
        case False
        then have "chosen ?cur now m = chosen cur now m" "?cur m = cur m"
          by (simp_all add: chosen_upd_other)
        with False show ?thesis
          by (auto simp: step_cursors_def split: option.splits prod.splits bool.splits)
      qed
    qed
    have a': "step_active cur now (n # ns) = (hasMore \<or> step_active cur now ns)"
      using Some p by (auto simp: step_active_def)
    have l: "write_all wr w (step_lines now (step_samples cur now (n # ns)))
        = write_all wr w2 (step_lines now (step_samples cur now ns))"
      using wr e2 by (simp add: step_samples_Cons Some p step_lines_def)
    show ?thesis
      unfolding rc Cons.IH[OF d] s a c a' l
      by (simp add: step_samples_Cons Some p)
  qed
qed

lemma walk_total_unfold:
  assumes "never_fails wr" and "distinct (ords (Suc k))"
  shows "walk wr ords resolution k now cur w tr =
     (if \<not> step_active cur now (ords (Suc k))
      then Some \<lparr>sink = fst (write_all wr w (step_lines now (step_samples cur now (ords (Suc k))))),
                  err = None, trace = tr @ [(now, step_samples cur now (ords (Suc k)))]\<rparr>
      else walk wr ords resolution (Suc k) (now + resolution) (step_cursors cur now (ords (Suc k)))
             (fst (write_all wr w (step_lines now (step_samples cur now (ords (Suc k))))))
             (tr @ [(now, step_samples cur now (ords (Suc k)))]))"
  apply (subst walk.simps)
  apply (simp only: range_current_total[OF assms] prod.case option.case simp_thms append_Nil)
  done

lemma step_samples_perm:
  assumes "distinct ns1" "distinct ns2" "set ns1 = set ns2"
  shows "mset (step_samples cur now ns1) = mset (step_samples cur now ns2)"
proof -
  from assms have "mset ns1 = mset ns2"
    by (simp add: set_eq_iff_mset_eq_distinct)
  then show ?thesis
    unfolding step_samples_def List.map_filter_def
    by (simp only: mset_map mset_filter)
qed

lemma step_cursors_perm: "set ns1 = set ns2 \<Longrightarrow> step_cursors cur now ns1 = step_cursors cur now ns2"
  by (simp add: step_cursors_def)

lemma step_active_perm: "set ns1 = set ns2 \<Longrightarrow> step_active cur now ns1 = step_active cur now ns2"
  by (simp add: step_active_def)

lemma same_steps_snoc:
  "same_steps tr1 tr2 \<Longrightarrow> mset em1 = mset em2 \<Longrightarrow> same_steps (tr1 @ [(now, em1)]) (tr2 @ [(now, em2)])"
  by (simp add: same_steps_def list_all2_appendI)

lemma walk_total_perm:
  fixes ords2 :: "nat \<Rightarrow> string list" and out1 :: "('w, 'e) outcome"
  assumes nf: "never_fails wr0" and w: "walk wr0 ords1 resolution k now cur w1 tr1 = Some out1"
    and ords: "\<forall>j. distinct (ords1 j) \<and> distinct (ords2 j) \<and> set (ords1 j) = set (ords2 j)"
    and tr: "same_steps tr1 tr2"
  shows "\<exists>out2 :: ('w, 'e) outcome. walk wr0 ords2 resolution k now cur w2 tr2 = Some out2
      \<and> same_steps (trace out1) (trace out2) \<and> err out1 = None \<and> err out2 = None"
proof -
  let ?P = "\<lambda>(wr :: ('w, 'e) writer) (ords :: nat \<Rightarrow> string list) (resolution :: duration) (k :: nat)
      (now :: time) (cur :: string \<rightharpoonup> record_node) (w :: 'w)
      (tr :: (time \<times> (string \<times> 64 word) list) list) (out :: ('w, 'e) outcome).
      wr = wr0 \<longrightarrow> (\<forall>j. distinct (ords j) \<and> distinct (ords2 j) \<and> set (ords j) = set (ords2 j)) \<longrightarrow>
        (\<forall>w2 tr2. same_steps tr tr2 \<longrightarrow>
           (\<exists>out2 :: ('w, 'e) outcome. walk wr0 ords2 resolution k now cur w2 tr2 = Some out2
              \<and> same_steps (trace out) (trace out2) \<and> err out = None \<and> err out2 = None))"
  have "?P wr0 ords1 resolution k now cur w1 tr1 out1"
  proof (rule walk.raw_induct[where P = ?P, OF _ w])
    fix walk' :: "('w, 'e) writer \<Rightarrow> (nat \<Rightarrow> string list) \<Rightarrow> duration \<Rightarrow> nat \<Rightarrow> time
        \<Rightarrow> (string \<rightharpoonup> record_node) \<Rightarrow> 'w \<Rightarrow> (time \<times> (string \<times> 64 word) list) list
        \<Rightarrow> ('w, 'e) outcome option"
    fix wr :: "('w, 'e) writer" and ords resolution k now cur w tr and out :: "('w, 'e) outcome"
    assume IH: "\<And>wr ords resolution k now cur w tr out. walk' wr ords resolution k now cur w tr = Some out
        \<Longrightarrow> ?P wr ords resolution k now cur w tr out"
    assume step: "(case range_current wr now (ords (Suc k)) cur w False [] of
        (cur', w', active, em, e) \<Rightarrow>
          (case e of
             Some e' \<Rightarrow> Some \<lparr>sink = w', err = Some (WriterError e'), trace = tr @ [(now, em)]\<rparr>
           | None \<Rightarrow>
               if \<not> active then Some \<lparr>sink = w', err = None, trace = tr @ [(now, em)]\<rparr>
               else walk' wr ords resolution (Suc k) (now + resolution) cur' w' (tr @ [(now, em)]))) = Some out"
    show "?P wr ords resolution k now cur w tr out"
    proof (intro impI allI)
      fix w2 tr2
      assume wr: "wr = wr0"
        and o: "\<forall>j. distinct (ords j) \<and> distinct (ords2 j) \<and> set (ords j) = set (ords2 j)"
        and t: "same_steps tr tr2"
      let ?ns1 = "ords (Suc k)" and ?ns2 = "ords2 (Suc k)"
      from o have d1: "distinct ?ns1" and d2: "distinct ?ns2" and st: "set ?ns1 = set ?ns2"
        by simp_all
      have ms: "mset (step_samples cur now ?ns1) = mset (step_samples cur now ?ns2)"
        by (rule step_samples_perm[OF d1 d2 st])
      have t': "same_steps (tr @ [(now, step_samples cur now ?ns1)]) (tr2 @ [(now, step_samples cur now ?ns2)])"
        by (rule same_steps_snoc[OF t ms])
      show "\<exists>out2 :: ('w, 'e) outcome. walk wr0 ords2 resolution k now cur w2 tr2 = Some out2
              \<and> same_steps (trace out) (trace out2) \<and> err out = None \<and> err out2 = None"
      proof (cases "step_active cur now ?ns1")
        case False
        with step have "out = \<lparr>sink = fst (write_all wr0 w (step_lines now (step_samples cur now ?ns1))), err = None,
            trace = tr @ [(now, step_samples cur now ?ns1)]\<rparr>"
          unfolding wr range_current_total[OF nf d1] by simp
        moreover from False have "\<not> step_active cur now ?ns2"
          using step_active_perm[OF st] by simp
        ultimately show ?thesis
          using t' by (subst walk_total_unfold[of wr0 ords2 k, OF nf d2]) simp
      next
        case True
        with step have "walk' wr ords resolution (Suc k) (now + resolution) (step_cursors cur now ?ns1)
            (fst (write_all wr0 w (step_lines now (step_samples cur now ?ns1)))) (tr @ [(now, step_samples cur now ?ns1)]) = Some out"
          unfolding wr range_current_total[OF nf d1] by simp
        from IH[OF this] wr o t'
        obtain out2 :: "('w, 'e) outcome" where
          "walk wr0 ords2 resolution (Suc k) (now + resolution) (step_cursors cur now ?ns1)
             (fst (write_all wr0 w2 (step_lines now (step_samples cur now ?ns2)))) (tr2 @ [(now, step_samples cur now ?ns2)]) = Some out2"
          "same_steps (trace out) (trace out2)" "err out = None" "err out2 = None"
          by blast
        moreover from True have "step_active cur now ?ns2"
          using step_active_perm[OF st] by simp
        ultimately show ?thesis
          using step_cursors_perm[OF st, of cur now]
          by (subst walk_total_unfold[of wr0 ords2 k, OF nf d2]) simp
      qed
    qed
  qed
  with ords tr show ?thesis by blast
qed

lemma earlier_fold_None:
  "foldl (earlier fm) s0 ns = None \<longleftrightarrow> s0 = None \<and> (\<forall>n\<in>set ns. fm n = None)"
  by (induction ns arbitrary: s0) (auto simp: earlier_def split: option.splits)

lemma earlier_fold_Some:
  "foldl (earlier fm) s0 ns = Some s \<Longrightarrow>
     (s0 = Some s \<or> (\<exists>n\<in>set ns. \<exists>f. fm n = Some f \<and> at f = s))
     \<and> (\<forall>s'. s0 = Some s' \<longrightarrow> s \<le> s') \<and> (\<forall>n\<in>set ns. \<forall>f. fm n = Some f \<longrightarrow> s \<le> at f)"
proof (induction ns arbitrary: s0)
  case Nil
  then show ?case by simp
next
  case (Cons n ns)
  from Cons.prems have "foldl (earlier fm) (earlier fm s0 n) ns = Some s" by simp
  from Cons.IH[OF this] show ?case
    by (auto simp: earlier_def split: option.splits if_splits)
qed

lemma start_time_None: "start_time ns fm = None \<longleftrightarrow> (\<forall>n\<in>set ns. fm n = None)"
  by (simp add: start_time_def earlier_fold_None)

lemma start_time_Some:
  "start_time ns fm = Some s \<Longrightarrow>
     (\<exists>n\<in>set ns. \<exists>f. fm n = Some f \<and> at f = s) \<and> (\<forall>n\<in>set ns. \<forall>f. fm n = Some f \<longrightarrow> s \<le> at f)"
  using earlier_fold_Some[of fm None ns s] by (simp add: start_time_def)

lemma start_time_perm:
  assumes "set ns1 = set ns2"
  shows "start_time ns1 fm = start_time ns2 fm"
proof (cases "start_time ns1 fm")
  case None
  then show ?thesis using assms by (metis start_time_None)
next
  case (Some s1)
  then obtain s2 where s2: "start_time ns2 fm = Some s2"
    using assms by (metis start_time_None not_Some_eq)
  from start_time_Some[OF Some] start_time_Some[OF s2] assms have "s1 \<le> s2" "s2 \<le> s1"
    by blast+
  with Some s2 show ?thesis by simp
qed

lemma range_current_writes:
  "range_current wr now ns cur w act em = (cur', w', act', em', e)
     \<Longrightarrow> \<exists>new. em' = em @ new \<and> step_written wr now w new w' e"
proof (induction ns arbitrary: cur w act em)
  case Nil
  then show ?case by (auto simp: step_written_def step_lines_def)
next
  case (Cons n ns)
  show ?case
  proof (cases "chosen cur now n")
    case None
    then have "range_current wr now (n # ns) cur w act em = range_current wr now ns cur w act em"
      by (auto simp: chosen_def split: option.splits prod.splits)
    with Cons show ?thesis by simp
  next
    case (Some p)
    obtain x' hasMore where p: "p = (x', hasMore)" by (cases p)
    from Some p obtain x where x: "cur n = Some x" "forward x now = (Some x', hasMore)"
      by (auto simp: chosen_def split: option.splits prod.splits)
    obtain w2 e2 where wr: "wr w (sample_line n (val x') now) = (w2, e2)"
      by (cases "wr w (sample_line n (val x') now)")
    show ?thesis
    proof (cases e2)
      case None
      with Cons.prems x wr have "range_current wr now ns (if hasMore then cur(n \<mapsto> x') else cur) w2
          (act \<or> hasMore) (em @ [(n, val x')]) = (cur', w', act', em', e)"
        by (simp add: Let_def)
      from Cons.IH[OF this] obtain new where new: "em' = (em @ [(n, val x')]) @ new"
        "step_written wr now w2 new w' e"
        by blast
      have first: "write_all wr w (step_lines now [(n, val x')]) = (w2, None)"
        using wr None by (simp add: step_lines_def)
      have lines: "step_lines now ((n, val x') # new) = step_lines now [(n, val x')] @ step_lines now new"
        by (simp add: step_lines_def)
      have "step_written wr now w ((n, val x') # new) w' e"
        using new(2) unfolding step_written_def lines write_all_append_ok[OF first]
        by simp
      with new(1) show ?thesis by (intro exI[of _ "(n, val x') # new"]) simp
    next
      case (Some e')
      with Cons.prems x wr have r: "em' = em" "w' = w2" "e = Some e'"
        by (simp_all add: Let_def)
      have "step_written wr now w [] w' e"
        unfolding step_written_def r using wr Some
        by (auto simp: step_lines_def)
      with r(1) show ?thesis by (intro exI[of _ "[]"]) simp
    qed
  qed
qed

lemma trace_lines_append [simp]: "trace_lines (xs @ ys) = trace_lines xs @ trace_lines ys"
  by (simp add: trace_lines_def)

lemma trace_lines_Cons [simp]: "trace_lines ((now, em) # tr) = step_lines now em @ trace_lines tr"
  by (simp add: trace_lines_def)

lemma trace_lines_Nil [simp]: "trace_lines [] = []"
  by (simp add: trace_lines_def)

lemma walk_writes:
  assumes w: "walk wr ords resolution k now cur w tr = Some out"
  shows "\<exists>tr'. trace out = tr @ tr' \<and> tr' \<noteq> [] \<and> written wr w tr' out"
proof -
  let ?P = "\<lambda>(wr :: ('a, 'b) writer) (ords :: nat \<Rightarrow> string list) (resolution :: duration) (k :: nat)
      (now :: time) (cur :: string \<rightharpoonup> record_node) (w :: 'a)
      (tr :: (time \<times> (string \<times> 64 word) list) list) (out :: ('a, 'b) outcome).
      \<exists>tr'. trace out = tr @ tr' \<and> tr' \<noteq> [] \<and> written wr w tr' out"
  show ?thesis
  proof (rule walk.raw_induct[where P = ?P, OF _ w])
    fix walk' :: "('a, 'b) writer \<Rightarrow> (nat \<Rightarrow> string list) \<Rightarrow> duration \<Rightarrow> nat \<Rightarrow> time
        \<Rightarrow> (string \<rightharpoonup> record_node) \<Rightarrow> 'a \<Rightarrow> (time \<times> (string \<times> 64 word) list) list
        \<Rightarrow> ('a, 'b) outcome option"
    fix wr :: "('a, 'b) writer" and ords resolution k now cur w tr and out :: "('a, 'b) outcome"
    assume IH: "\<And>wr ords resolution k now cur w tr out. walk' wr ords resolution k now cur w tr = Some out
        \<Longrightarrow> ?P wr ords resolution k now cur w tr out"
    assume step: "(case range_current wr now (ords (Suc k)) cur w False [] of
        (cur', w', active, em, e) \<Rightarrow>
          (case e of
             Some e' \<Rightarrow> Some \<lparr>sink = w', err = Some (WriterError e'), trace = tr @ [(now, em)]\<rparr>
           | None \<Rightarrow>
               if \<not> active then Some \<lparr>sink = w', err = None, trace = tr @ [(now, em)]\<rparr>
               else walk' wr ords resolution (Suc k) (now + resolution) cur' w' (tr @ [(now, em)]))) = Some out"
    obtain cur' w' active em e0 where rc:
      "range_current wr now (ords (Suc k)) cur w False [] = (cur', w', active, em, e0)"
      by (metis prod_cases5)
    from range_current_writes[OF rc] have sw: "step_written wr now w em w' e0" by simp
    show "?P wr ords resolution k now cur w tr out"
    proof (cases e0)
      case (Some e')
      with step rc have out: "out = \<lparr>sink = w', err = Some (WriterError e'), trace = tr @ [(now, em)]\<rparr>"
        by simp
      from sw Some obtain wb n v where "write_all wr w (step_lines now em) = (wb, None)"
        "wr wb (sample_line n v now) = (w', Some e')"
        unfolding step_written_def by auto
      then have "written wr w [(now, em)] out"
        unfolding written_def out by auto
      with out show ?thesis by (intro exI[of _ "[(now, em)]"]) simp
    next
      case None
      with sw have wa: "write_all wr w (step_lines now em) = (w', None)"
        unfolding step_written_def by simp
      show ?thesis
      proof (cases active)
        case False
        with step rc None have out: "out = \<lparr>sink = w', err = None, trace = tr @ [(now, em)]\<rparr>"
          by simp
        from wa have "written wr w [(now, em)] out"
          unfolding written_def out by simp
        with out show ?thesis by (intro exI[of _ "[(now, em)]"]) simp
      next
        case True
        with step rc None have "walk' wr ords resolution (Suc k) (now + resolution) cur' w' (tr @ [(now, em)]) = Some out"
          by simp
        from IH[OF this] obtain tr' where tr': "trace out = (tr @ [(now, em)]) @ tr'" "tr' \<noteq> []"
          "written wr w' tr' out"
          by blast
        have l: "last ((now, em) # tr') = last tr'" using tr'(2) by simp
        have "written wr w ((now, em) # tr') out"
          using tr'(3) unfolding written_def l trace_lines_Cons write_all_append_ok[OF wa] .
        with tr'(1) show ?thesis by (intro exI[of _ "(now, em) # tr'"]) simp
      qed
    qed
  qed
qed

lemma Incs_chains_sorted: "chains_sorted (first (Incs evs newLinkedListRecorder))"
  unfolding chains_sorted_def
proof (intro allI impI)
  fix n c assume c: "first (Incs evs newLinkedListRecorder) n = Some c"
  from Incs_represents[of evs n] c have "nodes c = running 0 (accepted n evs)"
    by (auto simp: represents_def split: if_splits)
  then show "sorted (map snd (nodes c))"
    using sorted_accepted[of n evs] by simp
qed

lemma cursors_ok_refl: "cursors_ok fm fm"
  unfolding cursors_ok_def by (metis append_Nil)

lemma unat_sum_list:
  "unat (sum_list (ws :: 64 word list)) = sum_list (map unat ws) mod 2 ^ 64"
proof (induction ws)
  case Nil
  show ?case by simp
next
  case (Cons a ws)
  have "unat (a + sum_list ws) = (unat a + unat (sum_list ws)) mod 2 ^ 64"
    by (simp add: unat_word_ariths(1))
  also have "\<dots> = (unat a + sum_list (map unat ws) mod 2 ^ 64) mod 2 ^ 64"
    by (simp only: Cons.IH)
  also have "\<dots> = (unat a + sum_list (map unat ws)) mod 2 ^ 64"
    by (rule mod_add_right_eq)
  finally show ?case by simp
qed

lemma unat_sum_amounts:
  "unat (sum_list (map fst (xs :: (64 word \<times> time) list)))
     = sum_list (map (\<lambda>(a, t). unat a) xs) mod 2 ^ 64"
proof -
  have "map unat (map fst xs) = map (\<lambda>(a, t). unat a) xs" by (induction xs) auto
  with unat_sum_list[of "map fst xs"] show ?thesis by (simp only:)
qed

lemma shows_running_sum:
  "running s acc = P @ (v, t) # R \<Longrightarrow> \<forall>p\<in>set P. snd p \<le> now \<Longrightarrow> t \<le> now
     \<Longrightarrow> \<forall>q\<in>set R. now < snd q
     \<Longrightarrow> v = s + sum_list (map fst (filter (\<lambda>(a, t'). t' \<le> now) acc))"
proof (induction s acc arbitrary: P rule: running.induct)
  case (1 s)
  then show ?case by simp
next
  case (2 s a t0 xs)
  show ?case
  proof (cases P)
    case Nil
    with "2.prems" have v: "v = s + a" "t = t0" and R: "R = running (s + a) xs" by auto
    have eq: "snd ` set xs = snd ` set R"
      using map_snd_running[of "s + a" xs] unfolding R by (metis list.set_map)
    have "\<forall>q\<in>set xs. now < snd q"
    proof
      fix q assume "q \<in> set xs"
      then have "snd q \<in> snd ` set R" using eq by blast
      then obtain q' where "q' \<in> set R" "snd q' = snd q" by auto
      with "2.prems"(4) show "now < snd q" by auto
    qed
    then have "filter (\<lambda>(a, t'). t' \<le> now) xs = []"
      by (auto simp: filter_empty_conv)
    with v "2.prems"(3) show ?thesis by simp
  next
    case (Cons p P')
    with "2.prems" have p: "p = (s + a, t0)" "t0 \<le> now" and r: "running (s + a) xs = P' @ (v, t) # R"
      and P': "\<forall>p\<in>set P'. snd p \<le> now"
      by auto
    from "2.IH"[OF r P' "2.prems"(3,4)] p show ?thesis
      by (simp add: add.assoc)
  qed
qed

lemma Write_trace_ok:
  assumes w: "Write wr ords (Incs evs newLinkedListRecorder) w resolution = Some (r', out)"
  shows "trace_ok (first (Incs evs newLinkedListRecorder)) (trace out)"
proof (cases "start_time (ords 0) (first (Incs evs newLinkedListRecorder))")
  case None
  with w show ?thesis by (auto simp: Write_def trace_ok_def)
next
  case (Some start)
  with w have "walk wr ords resolution 0 start (first (Incs evs newLinkedListRecorder)) w [] = Some out"
    by (auto simp: Write_def)
  from walk_ok[OF Incs_chains_sorted this cursors_ok_refl] show ?thesis
    by (simp add: trace_ok_def)
qed

text \<open>No sample of a series is written at a step before the first record of the series.\<close>

lemma Write_no_sample_before_start:
  assumes w: "Write wr ords (Incs evs newLinkedListRecorder) w resolution = Some (r', out)"
    and step: "(now, em) \<in> set (trace out)" and sample: "(n, v) \<in> set em"
  shows "\<exists>c. first (Incs evs newLinkedListRecorder) n = Some c \<and> at c \<le> now"
proof -
  from Write_trace_ok[OF w] step have "samples_ok (first (Incs evs newLinkedListRecorder)) now em"
    unfolding trace_ok_def by blast
  with sample obtain c where c: "first (Incs evs newLinkedListRecorder) n = Some c"
      "shows_at (nodes c) now v"
    unfolding samples_ok_def by blast
  from c(2) obtain P t R where sh: "nodes c = P @ (v, t) # R" "\<forall>p\<in>set P. snd p \<le> now" "t \<le> now"
    unfolding shows_at_def by blast
  have "hd (nodes c) \<in> set (P @ [(v, t)])"
    using sh(1) by (cases P) auto
  with sh(2,3) have "snd (hd (nodes c)) \<le> now" by auto
  with c(1) show ?thesis by simp
qed

subsection \<open>The walk ends when the resolution is positive\<close>

lemma forward_hasMore:
  "forward c to = (Some x, True) \<Longrightarrow> \<exists>r. nxt x = Some r \<and> to < at r"
proof (induction c to rule: forward.induct)
  case (1 v a n to)
  show ?case
  proof (cases n)
    case None
    with "1.prems" show ?thesis by (simp split: if_splits)
  next
    case (Some r)
    show ?thesis
    proof (cases "to < at r")
      case True
      with Some "1.prems" show ?thesis by (auto split: if_splits)
    next
      case False
      with Some "1.prems" have "forward r to = (Some x, True)" "\<not> to < a"
        by (simp_all split: if_splits)
      from "1.IH"[OF this(2) Some False this(1)] show ?thesis .
    qed
  qed
qed

lemma nxt_in_nodes: "nxt x = Some r \<Longrightarrow> (val r, at r) \<in> set (nodes x)"
proof -
  assume n: "nxt x = Some r"
  have "hd (nodes r) \<in> set (nodes r)" by (rule hd_in_set) simp
  then have "(val r, at r) \<in> set (nodes r)" by simp
  with n show ?thesis by (cases x) simp
qed

lemma range_current_cursors:
  "range_current wr now ns cur w act em = (cur', w', act', em', e) \<Longrightarrow> cursors_ok fm cur
     \<Longrightarrow> cursors_ok fm cur' \<and> (act' \<longrightarrow> act \<or> (\<exists>n c q. fm n = Some c \<and> q \<in> set (nodes c) \<and> now < snd q))"
proof (induction ns arbitrary: cur w act em)
  case Nil
  then show ?case by simp
next
  case (Cons n ns)
  show ?case
  proof (cases "chosen cur now n")
    case None
    then have "range_current wr now (n # ns) cur w act em = range_current wr now ns cur w act em"
      by (auto simp: chosen_def split: option.splits prod.splits)
    with Cons show ?thesis by simp
  next
    case (Some p)
    obtain x' hasMore where p: "p = (x', hasMore)" by (cases p)
    from Some p obtain x where x: "cur n = Some x" "forward x now = (Some x', hasMore)"
      by (auto simp: chosen_def split: option.splits prod.splits)
    from Cons.prems(2) x(1) obtain c pre where c: "fm n = Some c" "nodes c = pre @ nodes x"
      unfolding cursors_ok_def by blast
    from forward_Some[OF x(2)] obtain pre' where pre': "nodes x = pre' @ nodes x'"
      by blast
    let ?cur = "if hasMore then cur(n \<mapsto> x') else cur"
    have ok: "cursors_ok fm ?cur"
      using Cons.prems(2) c pre' unfolding cursors_ok_def
      by (auto intro: exI[of _ "pre @ pre'"])
    have later: "hasMore \<longrightarrow> (\<exists>n c q. fm n = Some c \<and> q \<in> set (nodes c) \<and> now < snd q)"
    proof
      assume hasMore
      with x(2) have "forward x now = (Some x', True)" by simp
      from forward_hasMore[OF this] obtain r where r: "nxt x' = Some r" "now < at r" by blast
      from nxt_in_nodes[OF r(1)] have "(val r, at r) \<in> set (nodes c)"
        using c(2) pre' by simp
      with c(1) r(2) show "\<exists>n c q. fm n = Some c \<and> q \<in> set (nodes c) \<and> now < snd q"
        by force
    qed
    obtain w2 e2 where wr: "wr w (sample_line n (val x') now) = (w2, e2)"
      by (cases "wr w (sample_line n (val x') now)")
    show ?thesis
    proof (cases e2)
      case (Some err)
      with Cons.prems(1) x wr have "cur' = ?cur" "act' = (act \<or> hasMore)"
        by (simp_all add: Let_def)
      with ok later show ?thesis by blast
    next
      case None
      with Cons.prems(1) x wr
      have "range_current wr now ns ?cur w2 (act \<or> hasMore) (em @ [(n, val x')]) = (cur', w', act', em', e)"
        by (simp add: Let_def)
      from Cons.IH[OF this ok] later show ?thesis by blast
    qed
  qed
qed

lemma steps_left_step:
  assumes "0 < resolution" "now < M"
  shows "Suc (steps_left M resolution (now + resolution)) \<le> steps_left M resolution now"
proof -
  have d: "- ((- (M - now)) div resolution) \<ge> 1"
  proof -
    have "(- (M - now)) div resolution < 0"
      using assms by (simp add: div_neg_pos_less0)
    then show ?thesis by simp
  qed
  show ?thesis
  proof (cases "now + resolution < M")
    case False
    with assms d show ?thesis by (simp add: steps_left_def)
  next
    case True
    have "(- (M - (now + resolution))) div resolution = (- (M - now)) div resolution + 1"
    proof -
      have "- (M - (now + resolution)) = - (M - now) + 1 * resolution" by simp
      then show ?thesis using assms(1)
        by (metis div_add_self2 less_irrefl mult.left_neutral)
    qed
    then have "- ((- (M - (now + resolution))) div resolution) = - ((- (M - now)) div resolution) - 1"
      by simp
    with True assms d show ?thesis by (simp add: steps_left_def)
  qed
qed

lemma walk_terminates:
  assumes res: "0 < resolution" and bd: "bounded_by fm M"
  shows "cursors_ok fm cur \<Longrightarrow> \<exists>out. walk wr ords resolution k now cur w tr = Some out
      \<and> length (trace out) \<le> length tr + steps_left M resolution now"
proof (induction "nat (M - now)" arbitrary: k now cur w tr rule: less_induct)
  case less
  obtain cur' w' active em e where rc:
    "range_current wr now (ords (Suc k)) cur w False [] = (cur', w', active, em, e)"
    by (metis prod_cases5)
  from range_current_cursors[OF rc less.prems]
  have ok': "cursors_ok fm cur'"
    and later: "active \<longrightarrow> (\<exists>n c q. fm n = Some c \<and> q \<in> set (nodes c) \<and> now < snd q)"
    by simp_all
  have one: "1 \<le> steps_left M resolution now" by (simp add: steps_left_def)
  show ?case
  proof (cases "e = None \<and> active")
    case False
    then have "\<exists>out. walk wr ords resolution k now cur w tr = Some out \<and> trace out = tr @ [(now, em)]"
      by (subst walk.simps) (auto simp: rc split: option.splits)
    with one show ?thesis by auto
  next
    case True
    with later bd have lt: "now < M"
      unfolding bounded_by_def by fastforce
    with res have "nat (M - (now + resolution)) < nat (M - now)" by simp
    from less.hyps[OF this ok'] obtain out where
      out: "walk wr ords resolution (Suc k) (now + resolution) cur' w' (tr @ [(now, em)]) = Some out"
        "length (trace out) \<le> length (tr @ [(now, em)]) + steps_left M resolution (now + resolution)"
      by blast
    have "walk wr ords resolution k now cur w tr = Some out"
      using True out(1) by (subst walk.simps) (simp add: rc)
    moreover have "length (trace out) \<le> length tr + steps_left M resolution now"
      using out(2) steps_left_step[OF res lt] by simp
    ultimately show ?thesis by blast
  qed
qed

lemma accepted_subset: "set (accepted n evs) \<subseteq> snd ` set evs"
proof (induction evs rule: rev_induct)
  case Nil
  show ?case by simp
next
  case (snoc e evs)
  obtain m a t where e: "e = (m, a, t)" by (cases e)
  from snoc show ?case
    unfolding e accepted_snoc by (auto split: if_splits)
qed

lemma Incs_nodes:
  "first (Incs evs newLinkedListRecorder) n = Some c \<Longrightarrow> nodes c = running 0 (accepted n evs)"
  using Incs_represents[of evs n] by (auto simp: represents_def split: if_splits)

lemma Incs_bounded: "\<exists>M. bounded_by (first (Incs evs newLinkedListRecorder)) M"
proof -
  let ?ts = "0 # map (\<lambda>e. snd (snd e)) evs"
  have "bounded_by (first (Incs evs newLinkedListRecorder)) (Max (set ?ts))"
    unfolding bounded_by_def
  proof (intro allI impI)
    fix n c q
    assume c: "first (Incs evs newLinkedListRecorder) n = Some c" and q: "q \<in> set (nodes c)"
    from q have "snd q \<in> set (map snd (nodes c))" by simp
    then have "snd q \<in> set (map snd (accepted n evs))"
      unfolding Incs_nodes[OF c] by simp
    then obtain a where "(a, snd q) \<in> set (accepted n evs)" by auto
    with accepted_subset[of n evs] have "(a, snd q) \<in> snd ` set evs" by blast
    then obtain e where "e \<in> set evs" "snd e = (a, snd q)" by auto
    then have "snd q \<in> (\<lambda>e. snd (snd e)) ` set evs" by force
    then have "snd q \<in> set ?ts" by simp
    then show "snd q \<le> Max (set ?ts)" by (intro Max_ge) simp_all
  qed
  then show ?thesis ..
qed

lemma Write_returns:
  assumes "0 < resolution"
  shows "\<exists>out. Write wr ords (Incs evs newLinkedListRecorder) w resolution
      = Some (Incs evs newLinkedListRecorder, out)"
proof (cases "start_time (ords 0) (first (Incs evs newLinkedListRecorder))")
  case None
  then show ?thesis by (simp add: Write_def)
next
  case (Some start)
  from Incs_bounded obtain M where "bounded_by (first (Incs evs newLinkedListRecorder)) M" ..
  from walk_terminates[OF assms this cursors_ok_refl, of wr ords 0 start w "[]"]
  obtain out where "walk wr ords resolution 0 start (first (Incs evs newLinkedListRecorder)) w [] = Some out"
    by blast
  with Some show ?thesis by (simp add: Write_def)
qed

lemma sorted_le_last_nodes:
  "sorted (map snd (nodes c)) \<Longrightarrow> q \<in> set (nodes c) \<Longrightarrow> snd q \<le> snd (last (nodes c))"
  using sorted_le_last[of "map snd (nodes c)"] by (simp add: last_map)

lemma Write_steps_bound:
  assumes res: "0 < resolution" and r: "r = Incs evs newLinkedListRecorder"
    and ns: "set (ords 0) = dom (first r)" and ne: "first r \<noteq> Map.empty"
  shows "\<exists>out. Write wr ords r w resolution = Some (r, out)
      \<and> int (length (trace out)) \<le> stated_steps (ords 0) r resolution"
proof -
  let ?ns = "ords 0"
  let ?heads = "map (\<lambda>n. snd (hd (chain r n))) ?ns"
  let ?lasts = "map (\<lambda>n. snd (last (chain r n))) ?ns"
  let ?M = "Max (set ?lasts)"
  from ne obtain n1 where "first r n1 \<noteq> None" by (auto simp: fun_eq_iff)
  with ns have "n1 \<in> set ?ns" by auto
  then have nne: "?ns \<noteq> []" by auto
  have srt: "chains_sorted (first r)" unfolding r by (rule Incs_chains_sorted)
  have bd: "bounded_by (first r) ?M"
    unfolding bounded_by_def
  proof (intro allI impI)
    fix n c q
    assume c: "first r n = Some c" and q: "q \<in> set (nodes c)"
    from srt c have "sorted (map snd (nodes c))" by (simp add: chains_sorted_def)
    from sorted_le_last_nodes[OF this q] have "snd q \<le> snd (last (chain r n))"
      using c by (simp add: chain_def)
    moreover have "snd (last (chain r n)) \<in> set ?lasts"
      using c ns by auto
    then have "snd (last (chain r n)) \<le> ?M" by (intro Max_ge) simp_all
    ultimately show "snd q \<le> ?M" by simp
  qed
  from ne ns obtain start where st: "start_time ?ns (first r) = Some start"
    by (cases "start_time ?ns (first r)") (auto simp: start_time_None)
  from start_time_Some[OF st] obtain n0 f0 where
    n0: "n0 \<in> set ?ns" "first r n0 = Some f0" "at f0 = start"
    and low: "\<forall>n\<in>set ?ns. \<forall>f. first r n = Some f \<longrightarrow> start \<le> at f"
    by blast
  have heads: "\<And>n f. first r n = Some f \<Longrightarrow> snd (hd (chain r n)) = at f"
    by (simp add: chain_def)
  have "start \<in> set ?heads"
    using n0 heads[OF n0(2)] by force
  moreover have "\<forall>h\<in>set ?heads. start \<le> h"
  proof
    fix h assume "h \<in> set ?heads"
    then obtain n where n: "n \<in> set ?ns" "h = snd (hd (chain r n))" by auto
    with ns obtain f where f: "first r n = Some f" by auto
    with low n(1) have "start \<le> at f" by blast
    with heads[OF f] n(2) show "start \<le> h" by simp
  qed
  ultimately have mn: "Min (set ?heads) = start"
    by (intro Min_eqI) auto
  have "(val f0, at f0) \<in> set (nodes f0)"
    using hd_in_set[of "nodes f0"] by simp
  with bd n0(2) have sM: "start \<le> ?M"
    unfolding bounded_by_def n0(3)[symmetric] by fastforce
  from walk_terminates[OF res bd cursors_ok_refl, of wr ords 0 start w "[]"]
  obtain out where out: "walk wr ords resolution 0 start (first r) w [] = Some out"
    "length (trace out) \<le> steps_left ?M resolution start"
    by auto
  have st_eq: "stated_steps ?ns r resolution = - ((- (?M - start)) div resolution) + 1"
    unfolding stated_steps_def Let_def mn ..
  have "int (steps_left ?M resolution start) = stated_steps ?ns r resolution"
  proof (cases "start < ?M")
    case True
    then have "(- (?M - start)) div resolution < 0"
      using res by (simp add: div_neg_pos_less0)
    with True show ?thesis
      unfolding st_eq steps_left_def by simp
  next
    case False
    with sM have "?M - start = 0" by simp
    with False show ?thesis
      unfolding st_eq steps_left_def by simp
  qed
  with out(2) have "int (length (trace out)) \<le> stated_steps ?ns r resolution" by simp
  moreover have "Write wr ords r w resolution = Some (r, out)"
    using st out(1) by (simp add: Write_def)
  ultimately show ?thesis by blast
qed

subsection \<open>The step at which the walk stops\<close>

lemma forward_None_iff: "fst (forward c to) = None \<longleftrightarrow> to < at c"
proof (induction c to rule: forward.induct)
  case (1 v a n to)
  show ?case
  proof (cases n)
    case None
    then show ?thesis by simp
  next
    case (Some r)
    show ?thesis
    proof (cases "to < a \<or> to < at r")
      case True
      with Some show ?thesis by auto
    next
      case False
      with "1.IH"[OF _ Some] have "fst (forward r to) \<noteq> None" by simp
      with Some False show ?thesis by simp
    qed
  qed
qed

lemma forward_active_iff:
  assumes "sorted (map snd (nodes x))"
  shows "(\<exists>x'. forward x now = (Some x', True)) \<longleftrightarrow> at x \<le> now \<and> now < snd (last (nodes x))"
proof
  assume "\<exists>x'. forward x now = (Some x', True)"
  then obtain x' where fw: "forward x now = (Some x', True)" ..
  from forward_hasMore[OF fw] obtain r where r: "nxt x' = Some r" "now < at r" by blast
  from forward_Some[OF fw] obtain pre where pre: "nodes x = pre @ nodes x'" by blast
  from nxt_in_nodes[OF r(1)] pre have "(val r, at r) \<in> set (nodes x)" by simp
  from sorted_le_last_nodes[OF assms this] r(2) have "now < snd (last (nodes x))" by simp
  moreover have "at x \<le> now"
    using forward_None_iff[of x now] fw by simp
  ultimately show "at x \<le> now \<and> now < snd (last (nodes x))" by simp
next
  assume a: "at x \<le> now \<and> now < snd (last (nodes x))"
  then have "fst (forward x now) \<noteq> None" by (simp add: forward_None_iff)
  then obtain x' hasMore where fw: "forward x now = (Some x', hasMore)"
    by (cases "forward x now") auto
  from forward_Some[OF fw] assms obtain pre where pre: "nodes x = pre @ nodes x'" "at x' \<le> now"
    "hasMore = (nxt x' \<noteq> None)"
    by blast
  have "nxt x' \<noteq> None"
  proof
    assume "nxt x' = None"
    then have "nodes x' = [(val x', at x')]" by (cases x') simp
    with pre(1) have "snd (last (nodes x)) = at x'" by simp
    with pre(2) a show False by simp
  qed
  with pre(3) fw show "\<exists>x'. forward x now = (Some x', True)" by auto
qed

lemma cursor_started_iff:
  assumes srt: "sorted (map snd (nodes c))" and c: "nodes c = pre @ nodes x"
    and at: "pre = [] \<or> at x \<le> now"
  shows "at x \<le> now \<longleftrightarrow> at c \<le> now"
proof (cases "pre = []")
  case True
  with c have "hd (nodes c) = hd (nodes x)" by simp
  then show ?thesis by simp
next
  case False
  with at have x: "at x \<le> now" by simp
  have "hd (nodes x) \<in> set (nodes x)" by (rule hd_in_set) simp
  then have "(val x, at x) \<in> set (nodes c)" using c by simp
  from sorted_nodes_ge[OF srt this] x show ?thesis by simp
qed

lemma chosen_active_iff:
  assumes srt: "sorted (map snd (nodes c))" and cur: "cur n = Some x" and c: "nodes c = pre @ nodes x"
    and at: "pre = [] \<or> at x \<le> now"
  shows "(\<exists>x'. chosen cur now n = Some (x', True)) \<longleftrightarrow> at c \<le> now \<and> now < snd (last (nodes c))"
proof -
  from srt c have sx: "sorted (map snd (nodes x))" by (simp add: sorted_append)
  have l: "last (nodes c) = last (nodes x)" using c by simp
  have "(\<exists>x'. chosen cur now n = Some (x', True)) \<longleftrightarrow> (\<exists>x'. forward x now = (Some x', True))"
    using cur by (auto simp: chosen_def split: option.splits prod.splits)
  also have "\<dots> \<longleftrightarrow> at x \<le> now \<and> now < snd (last (nodes x))"
    by (rule forward_active_iff[OF sx])
  also have "\<dots> \<longleftrightarrow> at c \<le> now \<and> now < snd (last (nodes c))"
    using cursor_started_iff[OF srt c at] l by simp
  finally show ?thesis .
qed

lemma cursors_atD:
  "cursors_at fm cur now \<Longrightarrow> fm n = Some c
     \<Longrightarrow> \<exists>x pre. cur n = Some x \<and> nodes c = pre @ nodes x \<and> (pre = [] \<or> at x \<le> now)"
  unfolding cursors_at_def by (erule allE[of _ n]) simp

lemma cursors_at_NoneD: "cursors_at fm cur now \<Longrightarrow> fm n = None \<Longrightarrow> cur n = None"
  unfolding cursors_at_def by (erule allE[of _ n]) simp

lemma step_active_iff_live:
  assumes srt: "chains_sorted fm" and inv: "cursors_at fm cur now" and ns: "set ns = dom fm"
  shows "step_active cur now ns \<longleftrightarrow> live fm now"
proof
  assume "step_active cur now ns"
  then obtain n x' where n: "n \<in> set ns" "chosen cur now n = Some (x', True)"
    unfolding step_active_def by blast
  from n(1) ns obtain c where c: "fm n = Some c" by auto
  from cursors_atD[OF inv c]
  obtain x pre where x: "cur n = Some x" "nodes c = pre @ nodes x" "pre = [] \<or> at x \<le> now"
    by blast
  from srt c have "sorted (map snd (nodes c))" by (simp add: chains_sorted_def)
  from chosen_active_iff[where cur = cur and n = n, OF this x] n(2) have "at c \<le> now \<and> now < snd (last (nodes c))" by blast
  with c show "live fm now" unfolding live_def by blast
next
  assume "live fm now"
  then obtain n c where c: "fm n = Some c" "at c \<le> now" "now < snd (last (nodes c))"
    unfolding live_def by blast
  from cursors_atD[OF inv c(1)]
  obtain x pre where x: "cur n = Some x" "nodes c = pre @ nodes x" "pre = [] \<or> at x \<le> now"
    by blast
  from srt c(1) have "sorted (map snd (nodes c))" by (simp add: chains_sorted_def)
  from chosen_active_iff[where cur = cur and n = n, OF this x] c(2,3) obtain x' where "chosen cur now n = Some (x', True)" by blast
  moreover from c(1) ns have "n \<in> set ns" by auto
  ultimately show "step_active cur now ns" unfolding step_active_def by blast
qed

lemma step_cursors_at:
  assumes inv: "cursors_at fm cur now" and ns: "set ns = dom fm" and res: "0 \<le> resolution"
  shows "cursors_at fm (step_cursors cur now ns) (now + resolution)"
  unfolding cursors_at_def
proof
  fix n
  show "case fm n of None \<Rightarrow> step_cursors cur now ns n = None
      | Some c \<Rightarrow> \<exists>x pre. step_cursors cur now ns n = Some x \<and> nodes c = pre @ nodes x
          \<and> (pre = [] \<or> at x \<le> now + resolution)"
  proof (cases "fm n")
    case None
    from cursors_at_NoneD[OF inv None] have "cur n = None" .
    moreover have "n \<notin> set ns" unfolding ns by (simp add: domIff None)
    ultimately show ?thesis using None by (simp add: step_cursors_def)
  next
    case (Some c)
    from cursors_atD[OF inv Some]
    obtain x pre where x: "cur n = Some x" "nodes c = pre @ nodes x" "pre = [] \<or> at x \<le> now"
      by blast
    have n: "n \<in> set ns" unfolding ns by (simp add: domIff Some)
    show ?thesis
    proof (cases "\<exists>x'. chosen cur now n = Some (x', True)")
      case True
      then obtain x' where ch: "chosen cur now n = Some (x', True)" ..
      with x(1) have fw: "forward x now = (Some x', True)"
        by (auto simp: chosen_def split: option.splits prod.splits)
      from forward_Some[OF fw] obtain pre' where "nodes x = pre' @ nodes x'" "at x' \<le> now" by blast
      with x(2) res have "nodes c = (pre @ pre') @ nodes x'" "at x' \<le> now + resolution" by simp_all
      moreover have "step_cursors cur now ns n = Some x'"
        using n ch by (simp add: step_cursors_def)
      ultimately have "\<exists>y p. step_cursors cur now ns n = Some y \<and> nodes c = p @ nodes y
          \<and> (p = [] \<or> at y \<le> now + resolution)"
        by blast
      then show ?thesis unfolding Some by simp
    next
      case False
      have "step_cursors cur now ns n = cur n"
      proof (cases "chosen cur now n")
        case None
        with n show ?thesis by (simp add: step_cursors_def)
      next
        case (Some p)
        obtain y b where p: "p = (y, b)" by (cases p)
        have "\<not> b"
        proof
          assume b
          with Some p have "chosen cur now n = Some (y, True)" by simp
          with False show False by blast
        qed
        with Some p n show ?thesis by (simp add: step_cursors_def)
      qed
      moreover have "pre = [] \<or> at x \<le> now + resolution"
      proof (cases "pre = []")
        case True
        then show ?thesis by simp
      next
        case False
        with x(3) have "at x \<le> now" by simp
        with res show ?thesis by simp
      qed
      ultimately have "step_cursors cur now ns n = Some x \<and> nodes c = pre @ nodes x
          \<and> (pre = [] \<or> at x \<le> now + resolution)"
        using x(1,2) by simp
      then have "\<exists>y p. step_cursors cur now ns n = Some y \<and> nodes c = p @ nodes y
          \<and> (p = [] \<or> at y \<le> now + resolution)"
        by (intro exI)
      then show ?thesis unfolding Some by simp
    qed
  qed
qed

lemma walk_total_stops:
  fixes out :: "('w, 'e) outcome"
  assumes nf: "never_fails wr0" and w: "walk wr0 ords resolution k now cur w tr = Some out"
    and srt: "chains_sorted fm" and inv: "cursors_at fm cur now" and res: "0 \<le> resolution"
    and ords: "\<forall>j. distinct (ords j) \<and> set (ords j) = dom fm"
  shows "\<exists>K. length (trace out) = length tr + Suc K
      \<and> (\<forall>j<K. live fm (now + int j * resolution)) \<and> \<not> live fm (now + int K * resolution)"
proof -
  let ?P = "\<lambda>(wr :: ('w, 'e) writer) (ords :: nat \<Rightarrow> string list) (resolution :: duration) (k :: nat)
      (now :: time) (cur :: string \<rightharpoonup> record_node) (w :: 'w)
      (tr :: (time \<times> (string \<times> 64 word) list) list) (out :: ('w, 'e) outcome).
      wr = wr0 \<longrightarrow> cursors_at fm cur now \<longrightarrow> 0 \<le> resolution \<longrightarrow>
      (\<forall>j. distinct (ords j) \<and> set (ords j) = dom fm) \<longrightarrow>
      (\<exists>K. length (trace out) = length tr + Suc K
          \<and> (\<forall>j<K. live fm (now + int j * resolution)) \<and> \<not> live fm (now + int K * resolution))"
  have "?P wr0 ords resolution k now cur w tr out"
  proof (rule walk.raw_induct[where P = ?P, OF _ w])
    fix walk' :: "('w, 'e) writer \<Rightarrow> (nat \<Rightarrow> string list) \<Rightarrow> duration \<Rightarrow> nat \<Rightarrow> time
        \<Rightarrow> (string \<rightharpoonup> record_node) \<Rightarrow> 'w \<Rightarrow> (time \<times> (string \<times> 64 word) list) list
        \<Rightarrow> ('w, 'e) outcome option"
    fix wr :: "('w, 'e) writer" and ords resolution k now cur w tr and out :: "('w, 'e) outcome"
    assume IH: "\<And>wr ords resolution k now cur w tr out. walk' wr ords resolution k now cur w tr = Some out
        \<Longrightarrow> ?P wr ords resolution k now cur w tr out"
    assume step: "(case range_current wr now (ords (Suc k)) cur w False [] of
        (cur', w', active, em, e) \<Rightarrow>
          (case e of
             Some e' \<Rightarrow> Some \<lparr>sink = w', err = Some (WriterError e'), trace = tr @ [(now, em)]\<rparr>
           | None \<Rightarrow>
               if \<not> active then Some \<lparr>sink = w', err = None, trace = tr @ [(now, em)]\<rparr>
               else walk' wr ords resolution (Suc k) (now + resolution) cur' w' (tr @ [(now, em)]))) = Some out"
    show "?P wr ords resolution k now cur w tr out"
    proof (intro impI)
      assume wr: "wr = wr0" and inv: "cursors_at fm cur now" and res: "0 \<le> resolution"
        and o: "\<forall>j. distinct (ords j) \<and> set (ords j) = dom fm"
      let ?ns = "ords (Suc k)"
      let ?em = "step_samples cur now ?ns"
      from o have d: "distinct ?ns" and st: "set ?ns = dom fm" by simp_all
      note act = step_active_iff_live[OF srt inv st]
      show "\<exists>K. length (trace out) = length tr + Suc K
          \<and> (\<forall>j<K. live fm (now + int j * resolution)) \<and> \<not> live fm (now + int K * resolution)"
      proof (cases "step_active cur now ?ns")
        case False
        with step have "out = \<lparr>sink = fst (write_all wr0 w (step_lines now ?em)), err = None, trace = tr @ [(now, ?em)]\<rparr>"
          unfolding wr range_current_total[OF nf d] by simp
        with False act show ?thesis
          by (intro exI[of _ 0]) simp
      next
        case True
        with step have "walk' wr ords resolution (Suc k) (now + resolution) (step_cursors cur now ?ns)
            (fst (write_all wr0 w (step_lines now ?em))) (tr @ [(now, ?em)]) = Some out"
          unfolding wr range_current_total[OF nf d] by simp
        from IH[OF this] wr step_cursors_at[OF inv st res] res o
        obtain K where K: "length (trace out) = length (tr @ [(now, ?em)]) + Suc K"
          "\<forall>j<K. live fm (now + resolution + int j * resolution)"
          "\<not> live fm (now + resolution + int K * resolution)"
          by blast
        have a: "\<And>j. now + resolution + int j * resolution = now + int (Suc j) * resolution"
          by (simp add: algebra_simps)
        have "\<forall>j<Suc K. live fm (now + int j * resolution)"
        proof (intro allI impI)
          fix j assume j: "j < Suc K"
          show "live fm (now + int j * resolution)"
          proof (cases j)
            case 0
            with True act show ?thesis by simp
          next
            case (Suc j')
            with j K(2) have "live fm (now + resolution + int j' * resolution)" by simp
            then show ?thesis unfolding a Suc .
          qed
        qed
        moreover have "\<not> live fm (now + int (Suc K) * resolution)"
          using K(3) unfolding a .
        moreover have "length (trace out) = length tr + Suc (Suc K)"
          using K(1) by simp
        ultimately show ?thesis by blast
      qed
    qed
  qed
  with inv res ords show ?thesis by blast
qed

lemma cursors_at_start: "cursors_at fm fm now"
  unfolding cursors_at_def
proof
  fix n
  show "case fm n of None \<Rightarrow> fm n = None
      | Some c \<Rightarrow> \<exists>x pre. fm n = Some x \<and> nodes c = pre @ nodes x \<and> (pre = [] \<or> at x \<le> now)"
    by (cases "fm n") simp_all
qed

lemma Write_stops_at_first_idle_step:
  fixes out :: "('w, 'e) outcome"
  assumes nf: "never_fails wr" and r: "r = Incs evs newLinkedListRecorder" and res: "0 \<le> resolution"
    and ords: "\<forall>j. distinct (ords j) \<and> set (ords j) = dom (first r)"
    and st: "start_time (ords 0) (first r) = Some start"
    and w: "Write wr ords r w resolution = Some (r', out)"
  shows "\<exists>K. length (trace out) = Suc K
      \<and> (\<forall>j<K. live (first r) (start + int j * resolution))
      \<and> \<not> live (first r) (start + int K * resolution)"
proof -
  from w st have wk: "walk wr ords resolution 0 start (first r) w [] = Some out"
    by (auto simp: Write_def)
  have srt: "chains_sorted (first r)" unfolding r by (rule Incs_chains_sorted)
  from walk_total_stops[OF nf wk srt cursors_at_start res ords] show ?thesis by simp
qed

subsection \<open>The store\<close>

lemma same_but_refl: "same_but st st m"
  by (simp add: same_but_def)

lemma same_but_trans: "same_but st st' m \<Longrightarrow> same_but st' st'' m \<Longrightarrow> same_but st st'' m"
  by (simp add: same_but_def)

lemma load_Some: "load xs a = Some x \<longleftrightarrow> a < length xs \<and> xs ! a = x"
  by (auto simp: load_def)

lemma map_put_same_but: "map_put st m n a = Some st' \<Longrightarrow> same_but st st' m"
  by (auto simp: map_put_def same_but_def bind_eq_Some_conv)

lemma range_current_st_same_but:
  "range_current_st wr now ns cur st w act em = Some (st', w', act', em', e) \<Longrightarrow> same_but st st' cur"
proof (induction ns arbitrary: st w act em)
  case Nil
  then show ?case by (simp add: same_but_refl)
next
  case (Cons n ns)
  from Cons.prems obtain cm where cm: "load (map_objs st) cur = Some cm"
    by (auto simp: bind_eq_Some_conv)
  show ?case
  proof (cases "cm n")
    case None
    with Cons.prems cm have "range_current_st wr now ns cur st w act em = Some (st', w', act', em', e)"
      by simp
    then show ?thesis by (rule Cons.IH)
  next
    case (Some r)
    with Cons.prems cm obtain fw where fw: "forward_st (record_objs st) r now = Some fw"
      by (auto simp: bind_eq_Some_conv)
    obtain nxo hasMore where fwp: "fw = (nxo, hasMore)" by (cases fw)
    show ?thesis
    proof (cases nxo)
      case None
      with Cons.prems cm Some fw fwp
      have "range_current_st wr now ns cur st w act em = Some (st', w', act', em', e)"
        by simp
      then show ?thesis by (rule Cons.IH)
    next
      case (Some nx)
      with Cons.prems cm \<open>cm n = Some r\<close> fw fwp obtain st1 no where
        st1: "(if hasMore then map_put st cur n nx else Some st) = Some st1"
        and no: "load (record_objs st1) nx = Some no"
        and rest: "(case wr w (sample_line n (obj_value no) now) of
              (w', Some e) \<Rightarrow> Some (st1, w', act \<or> hasMore, em, Some e)
            | (w', None) \<Rightarrow> range_current_st wr now ns cur st1 w' (act \<or> hasMore)
                  (em @ [(n, obj_value no)])) = Some (st', w', act', em', e)"
        by (auto simp: bind_eq_Some_conv)
      from st1 have sb1: "same_but st st1 cur"
        by (auto simp: same_but_refl map_put_same_but split: if_splits)
      obtain w1 e1 where wr: "wr w (sample_line n (obj_value no) now) = (w1, e1)"
        by (cases "wr w (sample_line n (obj_value no) now)")
      show ?thesis
      proof (cases e1)
        case None
        with rest wr have "range_current_st wr now ns cur st1 w1 (act \<or> hasMore)
            (em @ [(n, obj_value no)]) = Some (st', w', act', em', e)"
          by simp
        from same_but_trans[OF sb1 Cons.IH[OF this]] show ?thesis .
      next
        case (Some e')
        with rest wr have "st' = st1" by simp
        with sb1 show ?thesis by simp
      qed
    qed
  qed
qed

lemma walk_st_same_but:
  assumes w: "walk_st wr ords resolution k now cur st w tr = Some res"
  shows "same_but st (fst res) cur"
proof -
  let ?P = "\<lambda>(wr :: ('a, 'b) writer) (ords :: nat \<Rightarrow> string list) (resolution :: duration) (k :: nat)
      (now :: time) (cur :: addr) (st :: store) (w :: 'a)
      (tr :: (time \<times> (string \<times> 64 word) list) list) (res :: store \<times> ('a, 'b) outcome).
      same_but st (fst res) cur"
  show ?thesis
  proof (rule walk_st.raw_induct[where P = ?P, OF _ w])
    fix walk' :: "('a, 'b) writer \<Rightarrow> (nat \<Rightarrow> string list) \<Rightarrow> duration \<Rightarrow> nat \<Rightarrow> time
        \<Rightarrow> addr \<Rightarrow> store \<Rightarrow> 'a \<Rightarrow> (time \<times> (string \<times> 64 word) list) list
        \<Rightarrow> (store \<times> ('a, 'b) outcome) option"
    fix wr :: "('a, 'b) writer" and ords resolution k now cur st w tr
      and res :: "store \<times> ('a, 'b) outcome"
    assume IH: "\<And>wr ords resolution k now cur st w tr res.
        walk' wr ords resolution k now cur st w tr = Some res
        \<Longrightarrow> ?P wr ords resolution k now cur st w tr res"
    assume step: "(case range_current_st wr now (ords (Suc k)) cur st w False [] of
        None \<Rightarrow> None
      | Some (st', w', active, em, e) \<Rightarrow>
          (case e of
             Some e' \<Rightarrow> Some (st', \<lparr>sink = w', err = Some (WriterError e'), trace = tr @ [(now, em)]\<rparr>)
           | None \<Rightarrow>
               if \<not> active then Some (st', \<lparr>sink = w', err = None, trace = tr @ [(now, em)]\<rparr>)
               else walk' wr ords resolution (Suc k) (now + resolution) cur st' w' (tr @ [(now, em)])))
        = Some res"
    then obtain st1 w1 active em e0 where rc:
      "range_current_st wr now (ords (Suc k)) cur st w False [] = Some (st1, w1, active, em, e0)"
      by (cases "range_current_st wr now (ords (Suc k)) cur st w False []") auto
    from range_current_st_same_but[OF rc] have sb: "same_but st st1 cur" .
    show "?P wr ords resolution k now cur st w tr res"
    proof (cases "e0 = None \<and> active")
      case False
      with step rc have "fst res = st1" by (cases e0) auto
      with sb show ?thesis by simp
    next
      case True
      with step rc have "walk' wr ords resolution (Suc k) (now + resolution) cur st1 w1 (tr @ [(now, em)])
          = Some res"
        by simp
      from same_but_trans[OF sb IH[OF this]] show ?thesis .
    qed
  qed
qed

lemma take_prefix_load:
  assumes t: "take (length xs) ys = xs" and l: "load xs a = Some m"
  shows "load ys a = Some m"
proof -
  from l have a: "a < length xs" and m: "xs ! a = m" by (simp_all add: load_Some)
  from t have "length (take (length xs) ys) = length xs" by simp
  then have le: "length xs \<le> length ys" by simp
  from a have "take (length xs) ys ! a = ys ! a" by simp
  with t m have "ys ! a = m" by simp
  with a le show ?thesis by (simp add: load_Some)
qed

lemma node_at_load:
  "node_at recs a x \<Longrightarrow> \<exists>ob. load recs a = Some ob \<and> obj_value ob = val x \<and> obj_at ob = at x"
  by (cases x; cases "nxt x") (auto split: option.splits)

lemma map_holds_None: "map_holds recs m f \<Longrightarrow> f n = None \<Longrightarrow> m n = None"
  unfolding map_holds_def by (erule allE[of _ n]) (auto split: option.splits)

lemma map_holds_Some: "map_holds recs m f \<Longrightarrow> f n = Some x \<Longrightarrow> \<exists>a. m n = Some a \<and> node_at recs a x"
  unfolding map_holds_def by (erule allE[of _ n]) (auto split: option.splits)

lemma map_holds_upd:
  assumes "map_holds recs m f" and "node_at recs a x"
  shows "map_holds recs (m(n \<mapsto> a)) (f(n \<mapsto> x))"
  unfolding map_holds_def
proof
  fix k
  from assms(1) have "case m k of None \<Rightarrow> f k = None
      | Some a \<Rightarrow> (case f k of None \<Rightarrow> False | Some x \<Rightarrow> node_at recs a x)"
    unfolding map_holds_def by (rule spec)
  with assms(2) show "case (m(n \<mapsto> a)) k of None \<Rightarrow> (f(n \<mapsto> x)) k = None
      | Some a \<Rightarrow> (case (f(n \<mapsto> x)) k of None \<Rightarrow> False | Some x \<Rightarrow> node_at recs a x)"
    by (cases "k = n") (auto split: option.splits)
qed

lemma forward_st_simulates:
  "node_at recs a x \<Longrightarrow>
     (case forward x to of
        (None, hasMore) \<Rightarrow> forward_st recs a to = Some (None, hasMore)
      | (Some y, hasMore) \<Rightarrow> (\<exists>b. forward_st recs a to = Some (Some b, hasMore) \<and> node_at recs b y))"
proof (induction x to arbitrary: a rule: forward.induct)
  case (1 v t n to)
  from node_at_load[OF "1.prems"] obtain ob where ob: "load recs a = Some ob" "obj_value ob = v"
      "obj_at ob = t"
    by auto
  show ?case
  proof (cases "to < t")
    case True
    with ob show ?thesis by (subst forward_st.simps) simp
  next
    case nlt: False
    show ?thesis
    proof (cases n)
      case None
      with "1.prems" ob have "obj_next ob = None" by simp
      with nlt ob None "1.prems" show ?thesis by (subst forward_st.simps) simp
    next
      case (Some r)
      with "1.prems" ob obtain b where b: "obj_next ob = Some b" "node_at recs b r"
        by (auto split: option.splits)
      from node_at_load[OF b(2)] obtain bo where bo: "load recs b = Some bo" "obj_at bo = at r"
        by auto
      show ?thesis
      proof (cases "to < at r")
        case True
        with nlt ob Some b bo "1.prems" show ?thesis by (subst forward_st.simps) simp
      next
        case False
        have eq: "forward_st recs a to = forward_st recs b to"
          using nlt ob b bo False by (subst forward_st.simps) simp
        have fw: "forward (Record v t n) to = forward r to"
          using Some nlt False by simp
        from "1.IH"[OF nlt Some False b(2)] show ?thesis
          unfolding fw eq .
      qed
    qed
  qed
qed

lemma range_current_st_simulates:
  "cursors_hold st cur cm \<Longrightarrow> range_current wr now ns cm w act em = (cm', w', act', em', e)
     \<Longrightarrow> \<exists>st'. range_current_st wr now ns cur st w act em = Some (st', w', act', em', e)
            \<and> cursors_hold st' cur cm'"
proof (induction ns arbitrary: st cm w act em)
  case Nil
  then show ?case by simp
next
  case (Cons n ns)
  from Cons.prems(1) obtain mo where mo: "load (map_objs st) cur = Some mo"
      "map_holds (record_objs st) mo cm"
    by (auto simp: cursors_hold_def split: option.splits)
  show ?case
  proof (cases "cm n")
    case None
    from map_holds_None[OF mo(2) None] have "mo n = None" .
    with Cons.IH[OF Cons.prems(1)] Cons.prems(2) None mo(1) show ?thesis by simp
  next
    case (Some x)
    from map_holds_Some[OF mo(2) Some] obtain a where a: "mo n = Some a" "node_at (record_objs st) a x"
      by blast
    obtain yo hasMore where fw: "forward x now = (yo, hasMore)" by (cases "forward x now")
    show ?thesis
    proof (cases yo)
      case None
      with forward_st_simulates[OF a(2), of now] fw
      have "forward_st (record_objs st) a now = Some (None, hasMore)" by simp
      with Cons.IH[OF Cons.prems(1)] Cons.prems(2) Some mo(1) a(1) fw None show ?thesis by simp
    next
      case y: (Some y)
      with forward_st_simulates[OF a(2), of now] fw obtain b where
        b: "forward_st (record_objs st) a now = Some (Some b, hasMore)" "node_at (record_objs st) b y"
        by auto
      let ?st1 = "if hasMore then st\<lparr>map_objs := (map_objs st)[cur := mo(n \<mapsto> b)]\<rparr> else st"
      let ?cm1 = "if hasMore then cm(n \<mapsto> y) else cm"
      have put: "(if hasMore then map_put st cur n b else Some st) = Some ?st1"
        using mo(1) by (simp add: map_put_def)
      have recs1: "record_objs ?st1 = record_objs st" by simp
      have ch1: "cursors_hold ?st1 cur ?cm1"
      proof (cases hasMore)
        case True
        from mo(1) have "load ((map_objs st)[cur := mo(n \<mapsto> b)]) cur = Some (mo(n \<mapsto> b))"
          by (simp add: load_Some)
        with map_holds_upd[OF mo(2) b(2), of n] True show ?thesis
          by (simp add: cursors_hold_def)
      next
        case False
        with Cons.prems(1) show ?thesis by simp
      qed
      from node_at_load[OF b(2)] obtain bo where bo: "load (record_objs ?st1) b = Some bo"
          "obj_value bo = val y"
        unfolding recs1 by auto
      obtain w1 e1 where wr: "wr w (sample_line n (val y) now) = (w1, e1)"
        by (cases "wr w (sample_line n (val y) now)")
      have unfold: "range_current_st wr now (n # ns) cur st w act em =
          (case e1 of Some e' \<Rightarrow> Some (?st1, w1, act \<or> hasMore, em, Some e')
           | None \<Rightarrow> range_current_st wr now ns cur ?st1 w1 (act \<or> hasMore) (em @ [(n, val y)]))"
        using mo(1) a(1) b(1) put bo wr by (simp del: map_put_def split: option.splits)
      show ?thesis
      proof (cases e1)
        case None
        with Cons.prems(2) Some fw y wr
        have "range_current wr now ns ?cm1 w1 (act \<or> hasMore) (em @ [(n, val y)]) = (cm', w', act', em', e)"
          by (simp add: Let_def)
        from Cons.IH[OF ch1 this] None show ?thesis unfolding unfold by simp
      next
        case (Some e')
        with Cons.prems(2) \<open>cm n = Some x\<close> fw y wr
        have "(?cm1, w1, act \<or> hasMore, em, Some e') = (cm', w', act', em', e)"
          by (simp add: Let_def)
        then have eqs: "cm' = ?cm1" "w' = w1" "act' = (act \<or> hasMore)" "em' = em" "e = Some e'"
          by simp_all
        from ch1 show ?thesis unfolding unfold eqs Some by simp
      qed
    qed
  qed
qed


lemma walk_st_simulates:
  assumes w: "walk wr ords resolution k now cm w tr = Some out"
  shows "cursors_hold st cur cm \<Longrightarrow> \<exists>st'. walk_st wr ords resolution k now cur st w tr = Some (st', out)"
proof -
  let ?P = "\<lambda>(wr :: ('a, 'b) writer) (ords :: nat \<Rightarrow> string list) (resolution :: duration) (k :: nat)
      (now :: time) (cm :: string \<rightharpoonup> record_node) (w :: 'a)
      (tr :: (time \<times> (string \<times> 64 word) list) list) (out :: ('a, 'b) outcome).
      \<forall>st. cursors_hold st cur cm
         \<longrightarrow> (\<exists>st'. walk_st wr ords resolution k now cur st w tr = Some (st', out))"
  have "?P wr ords resolution k now cm w tr out"
  proof (rule walk.raw_induct[where P = ?P, OF _ w])
    fix walk' :: "('a, 'b) writer \<Rightarrow> (nat \<Rightarrow> string list) \<Rightarrow> duration \<Rightarrow> nat \<Rightarrow> time
        \<Rightarrow> (string \<rightharpoonup> record_node) \<Rightarrow> 'a \<Rightarrow> (time \<times> (string \<times> 64 word) list) list
        \<Rightarrow> ('a, 'b) outcome option"
    fix wr :: "('a, 'b) writer" and ords resolution k now cm w tr and out :: "('a, 'b) outcome"
    assume IH: "\<And>wr ords resolution k now cm w tr out. walk' wr ords resolution k now cm w tr = Some out
        \<Longrightarrow> ?P wr ords resolution k now cm w tr out"
    assume step: "(case range_current wr now (ords (Suc k)) cm w False [] of
        (cur', w', active, em, e) \<Rightarrow>
          (case e of
             Some e' \<Rightarrow> Some \<lparr>sink = w', err = Some (WriterError e'), trace = tr @ [(now, em)]\<rparr>
           | None \<Rightarrow>
               if \<not> active then Some \<lparr>sink = w', err = None, trace = tr @ [(now, em)]\<rparr>
               else walk' wr ords resolution (Suc k) (now + resolution) cur' w' (tr @ [(now, em)]))) = Some out"
    obtain cm' w' active em e0 where rc:
      "range_current wr now (ords (Suc k)) cm w False [] = (cm', w', active, em, e0)"
      by (metis prod_cases5)
    show "?P wr ords resolution k now cm w tr out"
    proof (intro allI impI)
      fix st
      assume "cursors_hold st cur cm"
      from range_current_st_simulates[OF this rc] obtain st1 where
        rcs: "range_current_st wr now (ords (Suc k)) cur st w False [] = Some (st1, w', active, em, e0)"
        and ch1: "cursors_hold st1 cur cm'"
        by blast
      show "\<exists>st'. walk_st wr ords resolution k now cur st w tr = Some (st', out)"
      proof (cases "e0 = None \<and> active")
        case False
        with step rc rcs show ?thesis
          by (subst walk_st.simps) (cases e0; auto)
      next
        case True
        with step rc have "walk' wr ords resolution (Suc k) (now + resolution) cm' w' (tr @ [(now, em)])
            = Some out"
          by simp
        from IH[OF this] ch1 obtain st' where
          "walk_st wr ords resolution (Suc k) (now + resolution) cur st1 w' (tr @ [(now, em)])
             = Some (st', out)"
          by blast
        with True rcs show ?thesis
          by (subst walk_st.simps) simp
      qed
    qed
  qed
  then show "cursors_hold st cur cm \<Longrightarrow> \<exists>st'. walk_st wr ords resolution k now cur st w tr = Some (st', out)"
    by blast
qed

lemma earlier_st_simulates:
  assumes m: "map_holds recs fm f" and s: "start_holds recs s t"
  shows "\<exists>s'. earlier_st recs fm s n = Some s' \<and> start_holds recs s' (earlier f t n)"
proof (cases "f n")
  case None
  from map_holds_None[OF m None] None s show ?thesis
    by (simp add: earlier_st_def earlier_def)
next
  case (Some x)
  from map_holds_Some[OF m Some] obtain a where a: "fm n = Some a" "node_at recs a x" by blast
  from node_at_load[OF a(2)] obtain ob where ob: "load recs a = Some ob" "obj_at ob = at x" by auto
  show ?thesis
  proof (cases s)
    case None
    with s have "t = None" by (simp add: start_holds_def)
    with None Some a(1) ob show ?thesis
      by (simp add: earlier_st_def earlier_def start_holds_def)
  next
    case (Some s0)
    with s obtain so where so: "load recs s0 = Some so" "t = Some (obj_at so)"
      by (auto simp: start_holds_def split: option.splits)
    with Some \<open>f n = Some x\<close> a(1) ob show ?thesis
      by (simp add: earlier_st_def earlier_def start_holds_def)
  qed
qed

lemma start_st_simulates:
  "map_holds recs fm f \<Longrightarrow> start_holds recs s t
     \<Longrightarrow> \<exists>s'. start_st recs fm ns s = Some s' \<and> start_holds recs s' (foldl (earlier f) t ns)"
proof (induction ns arbitrary: s t)
  case Nil
  then show ?case by simp
next
  case (Cons n ns)
  from earlier_st_simulates[OF Cons.prems, of n] obtain s1 where
    s1: "earlier_st recs fm s n = Some s1" "start_holds recs s1 (earlier f t n)"
    by blast
  from Cons.IH[OF Cons.prems(1) s1(2)] s1(1) show ?case by simp
qed

lemma Write_st_simulates_Write:
  assumes h: "holds st r rec" and w: "Write wr ords rec w resolution = Some (rec', out)"
  shows "\<exists>st'. Write_st wr ords st r w resolution = Some (st', out)"
proof -
  from h obtain ro fm where ro: "load (recorder_objs st) r = Some ro"
    and fm: "load (map_objs st) (first_map ro) = Some fm"
    and mh: "map_holds (record_objs st) fm (first rec)"
    by (auto simp: holds_def cursors_hold_def split: option.splits)
  have "start_holds (record_objs st) None None" by (simp add: start_holds_def)
  from start_st_simulates[OF mh this, of "ords 0"] obtain s where
    s: "start_st (record_objs st) fm (ords 0) None = Some s"
      "start_holds (record_objs st) s (start_time (ords 0) (first rec))"
    by (auto simp: start_time_def)
  show ?thesis
  proof (cases "start_time (ords 0) (first rec)")
    case None
    with s(2) have "s = None" by (cases s) (auto simp: start_holds_def split: option.splits)
    with w None ro fm s(1) show ?thesis by (simp add: Write_st_def Write_def)
  next
    case (Some start)
    with s(2) obtain a so where a: "s = Some a" "load (record_objs st) a = Some so" "obj_at so = start"
      by (cases s) (auto simp: start_holds_def split: option.splits)
    let ?st1 = "st\<lparr>map_objs := map_objs st @ [fm]\<rparr>"
    let ?cur = "length (map_objs st)"
    have "load (map_objs ?st1) ?cur = Some fm" by (simp add: load_Some)
    with mh have ch: "cursors_hold ?st1 ?cur (first rec)" by (simp add: cursors_hold_def)
    from w Some have "walk wr ords resolution 0 start (first rec) w [] = Some out"
      by (auto simp: Write_def)
    from walk_st_simulates[OF this ch] obtain st' where
      "walk_st wr ords resolution 0 start ?cur ?st1 w [] = Some (st', out)"
      by blast
    with ro fm s(1) a show ?thesis by (simp add: Write_st_def copy_map_def)
  qed
qed


lemma node_at_less: "node_at recs a x \<Longrightarrow> a < length recs"
  using node_at_load[of recs a x] by (auto simp: load_Some)

lemma node_at_tail:
  "node_at recs a x \<Longrightarrow> node_at recs (tail_addr recs a x) (tail_of (nodes x))"
proof (induction x arbitrary: a rule: nodes.induct)
  case (1 v t)
  then show ?case by (simp add: tail_of_def)
next
  case (2 v t r)
  from "2.prems" obtain ob b where ob: "load recs a = Some ob" "obj_next ob = Some b" "node_at recs b r"
    by (auto split: option.splits)
  have "nodes r \<noteq> []" by (cases r rule: nodes.cases) simp_all
  with "2.IH"[OF ob(3)] ob show ?case by (simp add: tail_of_def)
qed

lemma tail_next_None:
  assumes "node_at recs a x"
  shows "\<exists>ob. load recs (tail_addr recs a x) = Some ob \<and> obj_next ob = None
      \<and> obj_value ob = val (tail_of (nodes x)) \<and> obj_at ob = at (tail_of (nodes x))"
  using node_at_tail[OF assms] by (auto simp: tail_of_def split: option.splits)

lemma load_append: "a < length xs \<Longrightarrow> load (xs @ ys) a = load xs a"
  by (simp add: load_def nth_append)

lemma node_at_append:
  "node_at recs a x \<Longrightarrow> node_at (recs @ ys) a x \<and> tail_addr (recs @ ys) a x = tail_addr recs a x"
proof (induction x arbitrary: a rule: nodes.induct)
  case (1 v t)
  from node_at_less[OF "1.prems"] "1.prems" show ?case by (simp add: load_append)
next
  case (2 v t r)
  from "2.prems" obtain ob b where ob: "load recs a = Some ob" "obj_next ob = Some b" "node_at recs b r"
    by (auto split: option.splits)
  from node_at_less[OF "2.prems"] "2.prems" "2.IH"[OF ob(3)] ob show ?case
    by (simp add: load_append)
qed

lemma load_snoc: "load (xs @ [y]) (length xs) = Some y"
  by (simp add: load_def)

lemma load_update_other: "a \<noteq> c \<Longrightarrow> load (xs[c := y]) a = load xs a"
  by (simp add: load_def)

lemma node_at_update_other:
  assumes c: "load recs c = Some co" "obj_next co = None"
  shows "node_at recs a x \<Longrightarrow> tail_addr recs a x \<noteq> c
     \<Longrightarrow> node_at (recs[c := y]) a x \<and> tail_addr (recs[c := y]) a x = tail_addr recs a x"
proof (induction x arbitrary: a rule: nodes.induct)
  case (1 v t)
  then show ?case by (simp add: load_update_other)
next
  case (2 v t r)
  from "2.prems"(1) obtain ob b where ob: "load recs a = Some ob" "obj_next ob = Some b" "node_at recs b r"
    by (auto split: option.splits)
  with c have ac: "a \<noteq> c" by auto
  from "2.prems"(2) ob have "tail_addr recs b r \<noteq> c" by simp
  from "2.IH"[OF ob(3) this] "2.prems"(1) ob ac show ?case
    by (simp add: load_update_other)
qed

lemma node_at_extend:
  assumes new: "new = Record v' t' None"
    and recs': "recs' = (recs @ [\<lparr>obj_value = v', obj_at = t', obj_next = None\<rparr>])
                  [c := co\<lparr>obj_next := Some (length recs)\<rparr>]"
    and c: "load recs c = Some co"
  shows "node_at recs a x \<Longrightarrow> tail_addr recs a x = c
     \<Longrightarrow> node_at recs' a (set_tail_next x new) \<and> tail_addr recs' a (set_tail_next x new) = length recs"
proof (induction x arbitrary: a rule: nodes.induct)
  case (1 v t)
  then have ac: "a = c" by simp
  from c have cl: "c < length recs" by (simp add: load_Some)
  from c cl have 1: "load recs' c = Some (co\<lparr>obj_next := Some (length recs)\<rparr>)"
    by (simp add: recs' load_Some)
  from cl have 2: "load recs' (length recs) = Some \<lparr>obj_value = v', obj_at = t', obj_next = None\<rparr>"
    by (simp add: recs' load_Some nth_append)
  from "1.prems"(1) c ac 1 2 show ?case by (simp add: new)
next
  case (2 v t r)
  from "2.prems"(1) obtain ob b where ob: "load recs a = Some ob" "obj_next ob = Some b" "node_at recs b r"
    by (auto split: option.splits)
  from "2.prems"(2) ob have tb: "tail_addr recs b r = c" by simp
  from tail_next_None[OF ob(3)] tb c have "obj_next co = None" by auto
  with ob c have ac: "a \<noteq> c" by auto
  from node_at_less[OF "2.prems"(1)] ac have la: "load recs' a = load recs a"
    by (simp add: recs' load_update_other load_append)
  from "2.IH"[OF ob(3) tb] "2.prems"(1) ob la show ?case by simp
qed


lemma tracksI:
  assumes "load (recorder_objs st) r = Some ro" "first_map ro \<noteq> current_map ro"
    "load (map_objs st) (first_map ro) = Some fm" "load (map_objs st) (current_map ro) = Some cm"
    "\<And>n. series_tracked (record_objs st) (fm n) (cm n) (first rec n) (current rec n)"
    "inj_on cm (dom cm)"
  shows "tracks st r rec"
  using assms by (simp add: tracks_def)

lemma series_tracked_less:
  assumes "series_tracked recs fa (Some c) fx cx"
  shows "c < length recs"
proof -
  from assms obtain x a where "node_at recs a x" "c = tail_addr recs a x"
    by (auto simp: series_tracked_def split: option.splits)
  with node_at_tail[of recs a x] show ?thesis by (simp add: node_at_less)
qed

lemma inj_on_map_upd_fresh:
  assumes "inj_on cm (dom cm)" and "\<And>m. cm m \<noteq> Some a"
  shows "inj_on (cm(n \<mapsto> a)) (dom (cm(n \<mapsto> a)))"
proof (rule inj_onI)
  fix x y
  assume x: "x \<in> dom (cm(n \<mapsto> a))" and y: "y \<in> dom (cm(n \<mapsto> a))"
    and eq: "(cm(n \<mapsto> a)) x = (cm(n \<mapsto> a)) y"
  show "x = y"
  proof (cases "x = n")
    case True
    with eq assms(2)[of y] show ?thesis by (cases "y = n") simp_all
  next
    case False
    with eq assms(2)[of x] have yn: "y \<noteq> n" by (cases "y = n") simp_all
    with False eq x y have "cm x = cm y" "x \<in> dom cm" "y \<in> dom cm" by auto
    with assms(1) show ?thesis by (auto dest: inj_onD)
  qed
qed

lemma series_tracked_append:
  "series_tracked recs fa ca fx cx \<Longrightarrow> series_tracked (recs @ ys) fa ca fx cx"
  by (auto simp: series_tracked_def node_at_append split: option.splits)

lemma Inc_st_simulates:
  assumes t: "tracks st r rec"
  shows "\<exists>st'. Inc_st st r n v t = Some (st', snd (Inc rec n v t)) \<and> tracks st' r (fst (Inc rec n v t))"
proof -
  from t obtain ro :: recorder_obj and fm cm where ro: "load (recorder_objs st) r = Some ro"
    and ne: "first_map ro \<noteq> current_map ro"
    and fm: "load (map_objs st) (first_map ro) = Some fm"
    and cm: "load (map_objs st) (current_map ro) = Some cm"
    and tr0: "\<forall>n. series_tracked (record_objs st) (fm n) (cm n) (first rec n) (current rec n)"
    and inj: "inj_on cm (dom cm)"
    by (auto simp: tracks_def split: option.splits)
  from tr0 have tr: "series_tracked (record_objs st) (fm n) (cm n) (first rec n) (current rec n)" for n
    by (rule spec)
  let ?recs = "record_objs st"
  let ?nx = "length ?recs"
  from fm cm have lf: "first_map ro < length (map_objs st)" and lc: "current_map ro < length (map_objs st)"
    by (simp_all add: load_Some)
  have fresh: "cm m \<noteq> Some ?nx" for m
  proof
    assume "cm m = Some ?nx"
    with tr[of m] have "series_tracked ?recs (fm m) (Some ?nx) (first rec m) (current rec m)" by simp
    from series_tracked_less[OF this] show False by simp
  qed
  from inj_on_map_upd_fresh[OF inj fresh] have inj': "inj_on (cm(n \<mapsto> ?nx)) (dom (cm(n \<mapsto> ?nx)))" .
  show ?thesis
  proof (cases "current rec n")
    case None
    from tr[of n] None have f: "first rec n = None" "fm n = None" "cm n = None"
      by (auto simp: series_tracked_def split: option.splits)
    let ?ob = "\<lparr>obj_value = v, obj_at = t, obj_next = None\<rparr>"
    let ?new = "Record v t None"
    let ?st' = "st\<lparr>record_objs := ?recs @ [?ob],
        map_objs := (map_objs st)[first_map ro := fm(n \<mapsto> ?nx), current_map ro := cm(n \<mapsto> ?nx)]\<rparr>"
    let ?rec' = "rec\<lparr>first := (first rec)(n \<mapsto> ?new), current := (current rec)(n \<mapsto> ?new)\<rparr>"
    have run: "Inc_st st r n v t = Some (?st', None)"
      using ro fm cm f(3) ne by (simp add: Inc_st_def new_record_def map_put_def load_update_other)
    have inc: "Inc rec n v t = (?rec', None)"
      using None by (simp add: Inc_def Let_def)
    have "tracks ?st' r ?rec'"
    proof (rule tracksI[where ro = ro and fm = "fm(n \<mapsto> ?nx)" and cm = "cm(n \<mapsto> ?nx)"])
      show "load (recorder_objs ?st') r = Some ro" using ro by simp
      show "first_map ro \<noteq> current_map ro" by (rule ne)
      show "load (map_objs ?st') (first_map ro) = Some (fm(n \<mapsto> ?nx))"
        using lf ne by (simp add: load_Some)
      show "load (map_objs ?st') (current_map ro) = Some (cm(n \<mapsto> ?nx))"
        using lc by (simp add: load_Some)
      show "inj_on (cm(n \<mapsto> ?nx)) (dom (cm(n \<mapsto> ?nx)))" by (rule inj')
      fix m
      show "series_tracked (record_objs ?st') ((fm(n \<mapsto> ?nx)) m) ((cm(n \<mapsto> ?nx)) m)
          (first ?rec' m) (current ?rec' m)"
      proof (cases "m = n")
        case True
        then show ?thesis by (simp add: series_tracked_def load_snoc tail_of_def)
      next
        case False
        with series_tracked_append[OF tr[of m], of "[?ob]"] show ?thesis by simp
      qed
    qed
    with run inc show ?thesis by simp
  next
    case (Some cur)
    from tr[of n] Some obtain x a where x: "first rec n = Some x" and a: "fm n = Some a"
      and na: "node_at ?recs a x" and c: "cm n = Some (tail_addr ?recs a x)"
      and cur: "cur = tail_of (nodes x)"
      by (auto simp: series_tracked_def split: option.splits)
    let ?c = "tail_addr ?recs a x"
    from tail_next_None[OF na] cur obtain co where co: "load ?recs ?c = Some co" "obj_next co = None"
      "obj_value co = val cur" "obj_at co = at cur"
      by auto
    from co(1) have cl: "?c < ?nx" by (simp add: load_Some)
    show ?thesis
    proof (cases "t < at cur")
      case True
      with ro cm c co Some have "Inc_st st r n v t = Some (st, Some (ignoring_message n t (at cur)))"
        by (simp add: Inc_st_def)
      moreover from True Some have "Inc rec n v t = (rec, Some (ignoring_message n t (at cur)))"
        by (simp add: Inc_def)
      ultimately show ?thesis using t by simp
    next
      case False
      let ?ob = "\<lparr>obj_value = val cur + v, obj_at = t, obj_next = None\<rparr>"
      let ?new = "Record (val cur + v) t None"
      let ?recs' = "(?recs @ [?ob])[?c := co\<lparr>obj_next := Some ?nx\<rparr>]"
      let ?st' = "st\<lparr>record_objs := ?recs',
          map_objs := (map_objs st)[current_map ro := cm(n \<mapsto> ?nx)]\<rparr>"
      let ?rec' = "rec\<lparr>first := (first rec)(n \<mapsto> set_tail_next x ?new),
          current := (current rec)(n \<mapsto> ?new)\<rparr>"
      have lca: "load (?recs @ [?ob]) ?c = Some co"
        using co(1) cl by (simp add: load_append)
      have run: "Inc_st st r n v t = Some (?st', None)"
        using ro cm c co False lca
        by (simp add: Inc_st_def new_record_def set_next_def map_put_def)
      have inc: "Inc rec n v t = (?rec', None)"
        using Some False x by (simp add: Inc_def Let_def)
      have "tracks ?st' r ?rec'"
      proof (rule tracksI[where ro = ro and fm = fm and cm = "cm(n \<mapsto> ?nx)"])
        show "load (recorder_objs ?st') r = Some ro" using ro by simp
        show "first_map ro \<noteq> current_map ro" by (rule ne)
        show "load (map_objs ?st') (first_map ro) = Some fm"
          using fm ne by (simp add: load_update_other)
        show "load (map_objs ?st') (current_map ro) = Some (cm(n \<mapsto> ?nx))"
          using lc by (simp add: load_Some)
        show "inj_on (cm(n \<mapsto> ?nx)) (dom (cm(n \<mapsto> ?nx)))" by (rule inj')
        fix m
        show "series_tracked (record_objs ?st') (fm m) ((cm(n \<mapsto> ?nx)) m)
            (first ?rec' m) (current ?rec' m)"
        proof (cases "m = n")
          case True
          from node_at_extend[OF refl refl co(1) na refl, of "val cur + v" t]
          have "node_at ?recs' a (set_tail_next x ?new)"
            "tail_addr ?recs' a (set_tail_next x ?new) = ?nx"
            by simp_all
          with True a show ?thesis
            by (simp add: series_tracked_def nodes_set_tail_next tail_of_def)
        next
          case mn: False
          show ?thesis
          proof (cases "first rec m")
            case None
            with tr[of m] mn show ?thesis by (simp add: series_tracked_def)
          next
            case (Some y)
            with tr[of m] obtain b where b: "fm m = Some b" "node_at ?recs b y"
              "cm m = Some (tail_addr ?recs b y)" "current rec m = Some (tail_of (nodes y))"
              by (auto simp: series_tracked_def split: option.splits)
            have "tail_addr ?recs b y \<noteq> ?c"
            proof
              assume "tail_addr ?recs b y = ?c"
              with b(3) c have "cm m = cm n" "m \<in> dom cm" "n \<in> dom cm" by auto
              with inj have "m = n" by (auto dest: inj_onD)
              with mn show False by simp
            qed
            with node_at_append[OF b(2), of "[?ob]"]
            have "node_at (?recs @ [?ob]) b y" "tail_addr (?recs @ [?ob]) b y \<noteq> ?c"
              "tail_addr (?recs @ [?ob]) b y = tail_addr ?recs b y"
              by simp_all
            with node_at_update_other[OF lca co(2) this(1,2), of "co\<lparr>obj_next := Some ?nx\<rparr>"]
            have "node_at ?recs' b y" "tail_addr ?recs' b y = tail_addr ?recs b y"
              by simp_all
            with b Some mn show ?thesis by (simp add: series_tracked_def)
          qed
        qed
      qed
      with run inc show ?thesis by simp
    qed
  qed
qed


lemma tracks_holds:
  assumes "tracks st r rec"
  shows "holds st r rec"
proof -
  from assms obtain ro :: recorder_obj and fm cm where ro: "load (recorder_objs st) r = Some ro"
    and fm: "load (map_objs st) (first_map ro) = Some fm"
    and cm: "load (map_objs st) (current_map ro) = Some cm"
    and tr0: "\<forall>n. series_tracked (record_objs st) (fm n) (cm n) (first rec n) (current rec n)"
    by (auto simp: tracks_def split: option.splits)
  have "map_holds (record_objs st) fm (first rec)"
    unfolding map_holds_def
  proof
    fix n
    from tr0 have "series_tracked (record_objs st) (fm n) (cm n) (first rec n) (current rec n)" ..
    then show "case fm n of None \<Rightarrow> first rec n = None
        | Some a \<Rightarrow> (case first rec n of None \<Rightarrow> False | Some x \<Rightarrow> node_at (record_objs st) a x)"
      by (auto simp: series_tracked_def split: option.splits)
  qed
  moreover have "map_holds (record_objs st) cm (current rec)"
    unfolding map_holds_def
  proof
    fix n
    from tr0 have "series_tracked (record_objs st) (fm n) (cm n) (first rec n) (current rec n)" ..
    then show "case cm n of None \<Rightarrow> current rec n = None
        | Some a \<Rightarrow> (case current rec n of None \<Rightarrow> False | Some x \<Rightarrow> node_at (record_objs st) a x)"
      by (auto simp: series_tracked_def node_at_tail split: option.splits)
  qed
  ultimately show ?thesis using ro fm cm by (simp add: holds_def cursors_hold_def)
qed

lemma newLinkedListRecorder_st_tracks:
  "tracks (fst (newLinkedListRecorder_st st)) (snd (newLinkedListRecorder_st st)) newLinkedListRecorder"
  by (simp add: tracks_def newLinkedListRecorder_st_def newLinkedListRecorder_def load_def
      nth_append series_tracked_def)

lemma Incs_Cons: "Incs ((n, v, t) # evs) rec = Incs evs (fst (Inc rec n v t))"
  by (simp add: Incs_def)

lemma Incs_st_simulates:
  "tracks st r rec \<Longrightarrow> \<exists>st'. Incs_st evs st r = Some st' \<and> tracks st' r (Incs evs rec)"
proof (induction evs arbitrary: st rec)
  case Nil
  then show ?case by (simp add: Incs_def)
next
  case (Cons e evs)
  obtain n v t where e: "e = (n, v, t)" by (cases e)
  from Inc_st_simulates[OF Cons.prems, of n v t] obtain st1 where
    st1: "Inc_st st r n v t = Some (st1, snd (Inc rec n v t))" "tracks st1 r (fst (Inc rec n v t))"
    by blast
  from Cons.IH[OF st1(2)] st1(1) show ?case
    unfolding e Incs_Cons by simp
qed

lemma Write_st_returns:
  assumes "0 < resolution"
  shows "\<exists>st1 st2 out. Incs_st evs (fst (newLinkedListRecorder_st st)) (snd (newLinkedListRecorder_st st)) = Some st1
      \<and> Write_st wr ords st1 (snd (newLinkedListRecorder_st st)) w resolution = Some (st2, out)
      \<and> Write wr ords (Incs evs newLinkedListRecorder) w resolution
           = Some (Incs evs newLinkedListRecorder, out)"
proof -
  from Incs_st_simulates[OF newLinkedListRecorder_st_tracks, of evs st] obtain st1 where
    st1: "Incs_st evs (fst (newLinkedListRecorder_st st)) (snd (newLinkedListRecorder_st st)) = Some st1"
      "tracks st1 (snd (newLinkedListRecorder_st st)) (Incs evs newLinkedListRecorder)"
    by blast
  from Write_returns[OF assms, of wr ords evs w] obtain out where
    w: "Write wr ords (Incs evs newLinkedListRecorder) w resolution
          = Some (Incs evs newLinkedListRecorder, out)"
    by blast
  from Write_st_simulates_Write[OF tracks_holds[OF st1(2)] w] obtain st2 where
    "Write_st wr ords st1 (snd (newLinkedListRecorder_st st)) w resolution = Some (st2, out)"
    by blast
  with st1(1) w show ?thesis by blast
qed


subsection \<open>Evaluating the model on concrete recorders\<close>

lemmas write_eval = Write_def start_time_def earlier_def walk.simps builder_def sample_line_def
  show_uint64_def show_int_def Unix_def show_nat.simps digit_def Let_def Second_def Incs_def Inc_def
  newLinkedListRecorder_def

lemma Unix_add_seconds: "Unix (T + k * 1000000000) = Unix T + k"
  by (simp add: Unix_def)

lemma Unix_plus:
  "Unix (T + 10000000000) = Unix T + 10" "Unix (10000000000 + T) = Unix T + 10"
  "Unix (20000000000 + T) = Unix T + 20" "Unix (30000000000 + T) = Unix T + 30"
  "Unix (40000000000 + T) = Unix T + 40"
  using Unix_add_seconds[of T 10] Unix_add_seconds[of T 20] Unix_add_seconds[of T 30]
    Unix_add_seconds[of T 40]
  by (simp_all add: add.commute)

lemma overlap_Write:
  "Write builder ab_order (Incs overlap_events newLinkedListRecorder) [] (10 * Second)
     = Some (Incs overlap_events newLinkedListRecorder,
         \<lparr>sink = ''a 1 0'' @ [CHR 0x0A] @ ''a 1 10'' @ [CHR 0x0A] @ ''a 1 20'' @ [CHR 0x0A]
                  @ ''a 2 30'' @ [CHR 0x0A] @ ''b 1 30'' @ [CHR 0x0A],
           err = None,
           trace = [(0, [(''a'', 1)]), (10 * Second, [(''a'', 1)]), (20 * Second, [(''a'', 1)]),
                    (30 * Second, [(''a'', 2), (''b'', 1)])]\<rparr>)"
  by (simp add: overlap_events_def ab_order_def write_eval)

lemma same_time_Write_ab:
  "Write builder ab_order (Incs same_time_events newLinkedListRecorder) [] (10 * Second)
     = Some (Incs same_time_events newLinkedListRecorder,
         \<lparr>sink = ''a 1 0'' @ [CHR 0x0A] @ ''b 1 0'' @ [CHR 0x0A], err = None,
           trace = [(0, [(''a'', 1), (''b'', 1)])]\<rparr>)"
  by (simp add: same_time_events_def ab_order_def write_eval)

lemma same_time_Write_ba:
  "Write builder ba_order (Incs same_time_events newLinkedListRecorder) [] (10 * Second)
     = Some (Incs same_time_events newLinkedListRecorder,
         \<lparr>sink = ''b 1 0'' @ [CHR 0x0A] @ ''a 1 0'' @ [CHR 0x0A], err = None,
           trace = [(0, [(''b'', 1), (''a'', 1)])]\<rparr>)"
  by (simp add: same_time_events_def ba_order_def write_eval)

lemma closed_Write:
  "Write closed_writer foo_order (Incs (foo_events 0) newLinkedListRecorder) [] (10 * Second)
     = Some (Incs (foo_events 0) newLinkedListRecorder,
         \<lparr>sink = [], err = Some (WriterError ''closed''), trace = [(0, [])]\<rparr>)"
  by (simp add: foo_events_def foo_order_def closed_writer_def write_eval)

lemma overflow_Write:
  "Write builder foo_order (Incs overflow_events newLinkedListRecorder) [] (10 * Second)
     = Some (Incs overflow_events newLinkedListRecorder,
         \<lparr>sink = ''foo 18446744073709551615 0'' @ [CHR 0x0A] @ ''foo 0 10'' @ [CHR 0x0A],
           err = None,
           trace = [(0, [(''foo'', 18446744073709551615)]), (10 * Second, [(''foo'', 0)])]\<rparr>)"
  by (simp add: overflow_events_def foo_order_def write_eval)

lemma short_Write:
  "Write short_writer foo_order (Incs (foo_events 0) newLinkedListRecorder) [] (10 * Second)
     = Some (Incs (foo_events 0) newLinkedListRecorder,
         \<lparr>sink = [''foo 1 0'' @ [CHR 0x0A], ''foo''], err = Some (WriterError ''short write''),
           trace = [(0, [(''foo'', 1)]), (10 * Second, [])]\<rparr>)"
  by (simp add: foo_events_def foo_order_def short_writer_def write_eval)

lemma distinct_set_single:
  assumes "distinct xs" and "set xs = {n}"
  shows "xs = [n]"
proof (cases xs)
  case Nil
  with assms show ?thesis by simp
next
  case (Cons x ys)
  with assms have x: "x = n" and ys: "set ys \<subseteq> {n}" "n \<notin> set ys" by auto
  from ys have "ys = []" by (cases ys) auto
  with Cons x show ?thesis by simp
qed

lemmas store_eval = load_def new_record_def set_next_def map_put_def copy_map_def
  newLinkedListRecorder_st_def forward_st.simps Inc_st_def earlier_st_def walk_st.simps Write_st_def
  empty_store_def foo_store_def foo_store_written_def

lemma foo_store_built:
  "newLinkedListRecorder_st empty_store
     = (\<lparr>record_objs = [], map_objs = [Map.empty, Map.empty],
          recorder_objs = [\<lparr>first_map = 0, current_map = 1\<rparr>]\<rparr>, 0)
   \<and> Incs_st (foo_events 0) (fst (newLinkedListRecorder_st empty_store)) 0 = Some foo_store"
  by (auto simp add: store_eval foo_events_def Second_def eval_nat_numeral)

lemma foo_store_Write:
  "Write_st builder foo_order foo_store 0 [] (10 * Second)
     = Some (foo_store_written,
         \<lparr>sink = ''foo 1 0'' @ [CHR 0x0A] @ ''foo 2 10'' @ [CHR 0x0A] @ ''foo 4 20'' @ [CHR 0x0A]
                  @ ''foo 4 30'' @ [CHR 0x0A] @ ''foo 5 40'' @ [CHR 0x0A],
           err = None,
           trace = [(0, [(''foo'', 1)]), (10 * Second, [(''foo'', 2)]), (20 * Second, [(''foo'', 4)]),
                    (30 * Second, [(''foo'', 4)]), (40 * Second, [(''foo'', 5)])]\<rparr>)"
  by (simp add: store_eval foo_order_def write_eval)

lemma foo_store_chain:
  "chain_of foo_store 0 ''foo''
     = Some [(1, 0), (2, 10 * Second), (3, 15 * Second), (4, 20 * Second), (5, 33 * Second)]"
  by (simp add: chain_of_def first_of_def nodes_st.simps load_def foo_store_def)

lemma foo_store_holds: "holds foo_store 0 (Incs (foo_events 0) newLinkedListRecorder)"
  by (simp add: holds_def cursors_hold_def map_holds_def load_def foo_store_def foo_events_def
      Incs_def Inc_def newLinkedListRecorder_def Let_def Second_def)

lemma orders_permuted:
  "\<forall>k. distinct (ab_order k) \<and> distinct (ba_order k) \<and> set (ab_order k) = set (ba_order k)"
  by (auto simp: ab_order_def ba_order_def)

text \<open>
  The identities of \<^verbatim>\<open>TestMetrics\<close>: with at least one label, the identity is the name
  followed by the labels in braces, separated by commas.
\<close>

lemma take_all_but_last: "take (nat (int (length (p @ [c])) - 1)) (p @ [c]) = p"
  by simp

lemma labels_String_snoc:
  "labels_String quote (l @ [lb]) =
     Inr (foldl (\<lambda>s lb. s @ key lb @ ''='' @ quote (lvalue lb) @ '','') [] l
            @ key lb @ ''='' @ quote (lvalue lb))"
proof -
  let ?p = "foldl (\<lambda>s lb. s @ key lb @ ''='' @ quote (lvalue lb) @ '','') [] l
      @ key lb @ ''='' @ quote (lvalue lb)"
  have s: "foldl (\<lambda>s lb. s @ key lb @ ''='' @ quote (lvalue lb) @ '','') [] (l @ [lb]) = ?p @ [CHR '','']"
    by simp
  have n: "\<not> int (length (?p @ [CHR '',''])) - 1 < 0"
    by simp
  show ?thesis
    unfolding labels_String_def s Let_def
    by (simp only: n if_False take_all_but_last)
qed

lemma Metric_Inc_with_labels:
  "Metric_Inc quote \<lparr>name = ''qux'', labels = labels_with (labels_with [] ''x'' ''foo'') ''y'' ''baz''\<rparr> r v t
     = Inr (Inc r (''qux{x='' @ quote ''foo'' @ '',y='' @ quote ''baz'' @ ''}'') v t)"
  using labels_String_snoc[of quote "[\<lparr>key = ''x'', lvalue = ''foo''\<rparr>]" "\<lparr>key = ''y'', lvalue = ''baz''\<rparr>"]
  by (simp add: Metric_Inc_def labels_with_def)

section \<open>The claims\<close>

text \<open>
  C1, as amended. Whenever \<^verbatim>\<open>Write\<close> writes a sample for a series at a time step, the
  value written is the sum of the amounts of all accepted increments of that series whose
  timestamp is at most the time of the step, reduced modulo \<open>2 ^ 64\<close> (the total is a
  \<^verbatim>\<open>uint64\<close>, and \<^verbatim>\<open>current.value + value\<close> wraps around); it is that sum whenever the sum
  is below \<open>2 ^ 64\<close>. It is the value of the latest node of the chain whose timestamp is at
  most the time of the step. The recorder is any state reached from the empty recorder by
  calls of \<^verbatim>\<open>Inc\<close>; writer, visiting orders and resolution are arbitrary.
\<close>

theorem Write_emits_cumulative_sum:
  assumes w: "Write wr ords (Incs evs newLinkedListRecorder) w resolution = Some (r', out)"
    and step: "(now, em) \<in> set (trace out)" and sample: "(n, v) \<in> set em"
  shows "unat v = total_until n evs now mod 2 ^ 64
    \<and> (total_until n evs now < 2 ^ 64 \<longrightarrow> unat v = total_until n evs now)
    \<and> (\<exists>P t R. chain (Incs evs newLinkedListRecorder) n = P @ (v, t) # R
          \<and> (\<forall>p\<in>set P. snd p \<le> now) \<and> t \<le> now \<and> (\<forall>q\<in>set R. now < snd q))"
proof -
  let ?r = "Incs evs newLinkedListRecorder"
  have "trace_ok (first ?r) (trace out)"
    by (rule Write_trace_ok[OF w])
  with step have "samples_ok (first ?r) now em"
    unfolding trace_ok_def by blast
  with sample obtain c where c: "first ?r n = Some c" "shows_at (nodes c) now v"
    unfolding samples_ok_def by blast
  from Incs_represents[of evs n] c(1) have nodes: "nodes c = running 0 (accepted n evs)"
    by (auto simp: represents_def split: if_splits)
  from c(2) obtain P t R where sh: "nodes c = P @ (v, t) # R" "\<forall>p\<in>set P. snd p \<le> now" "t \<le> now"
      "\<forall>q\<in>set R. now < snd q"
    unfolding shows_at_def by blast
  from shows_running_sum[OF sh(1)[unfolded nodes] sh(2,3,4)]
  have "v = sum_list (map fst (filter (\<lambda>(a, t). t \<le> now) (accepted n evs)))" by simp
  then have 1: "unat v = total_until n evs now mod 2 ^ 64"
    by (simp only: unat_sum_amounts total_until_def)
  then have 2: "total_until n evs now < 2 ^ 64 \<longrightarrow> unat v = total_until n evs now"
    by simp
  have "chain ?r n = P @ (v, t) # R"
    using c(1) sh(1) by (simp add: chain_def)
  with sh(2,3,4) have 3: "\<exists>P t R. chain ?r n = P @ (v, t) # R
          \<and> (\<forall>p\<in>set P. snd p \<le> now) \<and> t \<le> now \<and> (\<forall>q\<in>set R. now < snd q)"
    by blast
  from 1 2 3 show ?thesis by (intro conjI)
qed

theorem Write_emits_cumulative_sum_witness:
  "Write builder ab_order (Incs overlap_events newLinkedListRecorder) [] (10 * Second)
     = Some (Incs overlap_events newLinkedListRecorder,
         \<lparr>sink = ''a 1 0'' @ [CHR 0x0A] @ ''a 1 10'' @ [CHR 0x0A] @ ''a 1 20'' @ [CHR 0x0A]
                  @ ''a 2 30'' @ [CHR 0x0A] @ ''b 1 30'' @ [CHR 0x0A],
           err = None :: unit error option,
           trace = [(0, [(''a'', 1)]), (10 * Second, [(''a'', 1)]), (20 * Second, [(''a'', 1)]),
                    (30 * Second, [(''a'', 2), (''b'', 1)])]\<rparr>)
   \<and> accepted ''a'' overlap_events = [(1, 0), (1, 30 * Second)]
   \<and> total_until ''a'' overlap_events (30 * Second) < 2 ^ 64
   \<and> unat (2 :: 64 word) = total_until ''a'' overlap_events (30 * Second)"
proof -
  have m: "(30 * Second, [(''a'', 2 :: 64 word), (''b'', 1)]) \<in> set (trace
      \<lparr>sink = ''a 1 0'' @ [CHR 0x0A] @ ''a 1 10'' @ [CHR 0x0A] @ ''a 1 20'' @ [CHR 0x0A]
                  @ ''a 2 30'' @ [CHR 0x0A] @ ''b 1 30'' @ [CHR 0x0A],
           err = None :: unit error option,
           trace = [(0, [(''a'', 1)]), (10 * Second, [(''a'', 1)]), (20 * Second, [(''a'', 1)]),
                    (30 * Second, [(''a'', 2), (''b'', 1)])]\<rparr>)"
    by simp
  have s: "(''a'', 2 :: 64 word) \<in> set [(''a'', 2), (''b'', 1)]" by simp
  have a: "accepted ''a'' overlap_events = [(1, 0), (1, 30 * Second)]"
    by (simp add: accepted_def overlap_events_def Second_def)
  have b: "total_until ''a'' overlap_events (30 * Second) < 2 ^ 64"
    by (simp add: total_until_def accepted_def overlap_events_def Second_def)
  note th = Write_emits_cumulative_sum[OF overlap_Write m s]
  from conjI[OF overlap_Write conjI[OF a conjI[OF b
    th[THEN conjunct2, THEN conjunct1, THEN mp, OF b]]]]
  show ?thesis .
qed

text \<open>
  The claim as stated, with the sum itself, fails when the sum reaches \<open>2 ^ 64\<close>: after
  \<^verbatim>\<open>Inc("foo", 18446744073709551615, 0s)\<close> and \<^verbatim>\<open>Inc("foo", 1, 10s)\<close> both increments are
  accepted and their sum is \<open>18446744073709551616\<close>, but \<^verbatim>\<open>Write\<close> writes \<open>foo 0 10\<close>.
\<close>

theorem Write_sample_wraps_around:
  "Write (builder :: (string, unit) writer) foo_order (Incs overflow_events newLinkedListRecorder) []
       (10 * Second)
     = Some (Incs overflow_events newLinkedListRecorder,
         \<lparr>sink = ''foo 18446744073709551615 0'' @ [CHR 0x0A] @ ''foo 0 10'' @ [CHR 0x0A],
           err = None,
           trace = [(0, [(''foo'', 18446744073709551615)]), (10 * Second, [(''foo'', 0)])]\<rparr>)
   \<and> accepted ''foo'' overflow_events = [(18446744073709551615, 0), (1, 10 * Second)]
   \<and> total_until ''foo'' overflow_events (10 * Second) = 18446744073709551616
   \<and> unat (0 :: 64 word) \<noteq> total_until ''foo'' overflow_events (10 * Second)"
proof -
  have a: "accepted ''foo'' overflow_events = [(18446744073709551615, 0), (1, 10 * Second)]"
    by (simp add: accepted_def overflow_events_def Second_def)
  have t: "total_until ''foo'' overflow_events (10 * Second) = 18446744073709551616"
    by (simp add: total_until_def accepted_def overflow_events_def Second_def)
  have n: "unat (0 :: 64 word) \<noteq> total_until ''foo'' overflow_events (10 * Second)"
    by (simp add: t)
  from conjI[OF overflow_Write conjI[OF a conjI[OF t n]]] show ?thesis .
qed

text \<open>
  C2. For the single series \<open>foo\<close> with increments of 1 at 0s, 10s, 15s, 20s and 33s after
  a start time \<open>T\<close>, \<^verbatim>\<open>Write\<close> with a resolution of 10s writes exactly the five lines
  \<open>foo 1 T\<close>, \<open>foo 2 T+10\<close>, \<open>foo 4 T+20\<close>, \<open>foo 4 T+30\<close>, \<open>foo 5 T+40\<close> (times in Unix
  seconds), each ended by a newline, in five steps, and returns no error.
\<close>

theorem Write_foo_scenario:
  "Write builder foo_order (Incs (foo_events T) newLinkedListRecorder) [] (10 * Second)
     = Some (Incs (foo_events T) newLinkedListRecorder,
         \<lparr>sink = ''foo 1 '' @ show_int (Unix T) @ [CHR 0x0A]
                @ ''foo 2 '' @ show_int (Unix T + 10) @ [CHR 0x0A]
                @ ''foo 4 '' @ show_int (Unix T + 20) @ [CHR 0x0A]
                @ ''foo 4 '' @ show_int (Unix T + 30) @ [CHR 0x0A]
                @ ''foo 5 '' @ show_int (Unix T + 40) @ [CHR 0x0A],
           err = None,
           trace = [(T, [(''foo'', 1)]), (T + 10 * Second, [(''foo'', 2)]),
                    (T + 20 * Second, [(''foo'', 4)]), (T + 30 * Second, [(''foo'', 4)]),
                    (T + 40 * Second, [(''foo'', 5)])]\<rparr>)"
proof -
  have r: "Incs (foo_events T) newLinkedListRecorder =
      \<lparr>first = [''foo'' \<mapsto> Record 1 T (Some (Record 2 (T + 10 * Second) (Some (Record 3 (T + 15 * Second)
          (Some (Record 4 (T + 20 * Second) (Some (Record 5 (T + 33 * Second) None))))))))],
       current = [''foo'' \<mapsto> Record 5 (T + 33 * Second) None]\<rparr>"
    by (simp add: foo_events_def Incs_def Inc_def newLinkedListRecorder_def Second_def Let_def)
  show ?thesis
    unfolding r
    by (simp add: foo_order_def Second_def Write_def Let_def start_time_def earlier_def walk.simps
        builder_def sample_line_def show_uint64_def show_nat.simps digit_def Unix_plus)
qed

theorem Write_foo_scenario_witness:
  "Write builder foo_order (Incs (foo_events (1724512000 * Second)) newLinkedListRecorder) []
       (10 * Second)
     = Some (Incs (foo_events (1724512000 * Second)) newLinkedListRecorder,
         \<lparr>sink = ''foo 1 1724512000'' @ [CHR 0x0A]
                @ ''foo 2 1724512010'' @ [CHR 0x0A]
                @ ''foo 4 1724512020'' @ [CHR 0x0A]
                @ ''foo 4 1724512030'' @ [CHR 0x0A]
                @ ''foo 5 1724512040'' @ [CHR 0x0A],
           err = None,
           trace = [(1724512000 * Second, [(''foo'', 1)]), (1724512010 * Second, [(''foo'', 2)]),
                    (1724512020 * Second, [(''foo'', 4)]), (1724512030 * Second, [(''foo'', 4)]),
                    (1724512040 * Second, [(''foo'', 5)])]\<rparr>)"
  unfolding Write_foo_scenario
  by (simp add: show_int_def Unix_def Second_def show_nat.simps digit_def)

text \<open>
  C3. The specification states that \<^verbatim>\<open>Write\<close> executes exactly
  ceil((maximum last-node timestamp - minimum head timestamp) / resolution) + 1 time
  steps. With series \<open>a\<close> recorded once at 0s and series \<open>b\<close> recorded once at 25s and a
  resolution of 10s that is 4 steps; \<^verbatim>\<open>Write\<close> stops after the first step, in which \<open>a\<close> has
  no further record and \<open>b\<close> has not started, whichever series is visited first. (For a
  positive resolution \<^verbatim>\<open>Write\<close> always returns, and never after more steps than stated:
  lemmas \<open>Write_returns\<close> and \<open>Write_steps_bound\<close>. It stops at the first step at which
  no series is live: lemma \<open>Write_stops_at_first_idle_step\<close>.)
\<close>

theorem Write_gap_stops_after_one_step:
  "Write builder ab_order (Incs gap_events newLinkedListRecorder) [] (10 * Second)
     = Some (Incs gap_events newLinkedListRecorder,
         \<lparr>sink = ''a 1 0'' @ [CHR 0x0A], err = None, trace = [(0, [(''a'', 1)])]\<rparr>)
   \<and> Write builder ba_order (Incs gap_events newLinkedListRecorder) [] (10 * Second)
     = Some (Incs gap_events newLinkedListRecorder,
         \<lparr>sink = ''a 1 0'' @ [CHR 0x0A], err = None, trace = [(0, [(''a'', 1)])]\<rparr>)
   \<and> stated_steps [''a'', ''b''] (Incs gap_events newLinkedListRecorder) (10 * Second) = 4"
proof (intro conjI)
  show "Write builder ab_order (Incs gap_events newLinkedListRecorder) [] (10 * Second)
     = Some (Incs gap_events newLinkedListRecorder,
         \<lparr>sink = ''a 1 0'' @ [CHR 0x0A], err = None, trace = [(0, [(''a'', 1)])]\<rparr>)"
    by (simp add: gap_events_def ab_order_def write_eval)
  show "Write builder ba_order (Incs gap_events newLinkedListRecorder) [] (10 * Second)
     = Some (Incs gap_events newLinkedListRecorder,
         \<lparr>sink = ''a 1 0'' @ [CHR 0x0A], err = None, trace = [(0, [(''a'', 1)])]\<rparr>)"
    by (simp add: gap_events_def ba_order_def write_eval)
  show "stated_steps [''a'', ''b''] (Incs gap_events newLinkedListRecorder) (10 * Second) = 4"
    by (simp add: stated_steps_def chain_def gap_events_def Incs_def Inc_def
        newLinkedListRecorder_def Second_def Let_def)
qed

text \<open>
  C4. The specification states that with two series the walk stops only once both have
  reached their final node. With \<open>a\<close> recorded at 0s and 10s and \<open>b\<close> recorded at 100s and
  110s and a resolution of 10s, \<^verbatim>\<open>Write\<close> stops after the step at 10s, where \<open>a\<close> is at its
  final node: nothing is ever written for \<open>b\<close>, whose chain has two nodes.
\<close>

theorem Write_late_series_never_written:
  "Write builder ab_order (Incs late_events newLinkedListRecorder) [] (10 * Second)
     = Some (Incs late_events newLinkedListRecorder,
         \<lparr>sink = ''a 1 0'' @ [CHR 0x0A] @ ''a 2 10'' @ [CHR 0x0A], err = None,
           trace = [(0, [(''a'', 1)]), (10 * Second, [(''a'', 2)])]\<rparr>)
   \<and> Write builder ba_order (Incs late_events newLinkedListRecorder) [] (10 * Second)
     = Some (Incs late_events newLinkedListRecorder,
         \<lparr>sink = ''a 1 0'' @ [CHR 0x0A] @ ''a 2 10'' @ [CHR 0x0A], err = None,
           trace = [(0, [(''a'', 1)]), (10 * Second, [(''a'', 2)])]\<rparr>)
   \<and> chain (Incs late_events newLinkedListRecorder) ''b'' = [(1, 100 * Second), (2, 110 * Second)]"
proof (intro conjI)
  show "Write builder ab_order (Incs late_events newLinkedListRecorder) [] (10 * Second)
     = Some (Incs late_events newLinkedListRecorder,
         \<lparr>sink = ''a 1 0'' @ [CHR 0x0A] @ ''a 2 10'' @ [CHR 0x0A], err = None,
           trace = [(0, [(''a'', 1)]), (10 * Second, [(''a'', 2)])]\<rparr>)"
    by (simp add: late_events_def ab_order_def write_eval)
  show "Write builder ba_order (Incs late_events newLinkedListRecorder) [] (10 * Second)
     = Some (Incs late_events newLinkedListRecorder,
         \<lparr>sink = ''a 1 0'' @ [CHR 0x0A] @ ''a 2 10'' @ [CHR 0x0A], err = None,
           trace = [(0, [(''a'', 1)]), (10 * Second, [(''a'', 2)])]\<rparr>)"
    by (simp add: late_events_def ba_order_def write_eval)
  show "chain (Incs late_events newLinkedListRecorder) ''b'' = [(1, 100 * Second), (2, 110 * Second)]"
    by (simp add: chain_def late_events_def Incs_def Inc_def newLinkedListRecorder_def Second_def Let_def)
qed

text \<open>
  C5, as amended. On a recorder with no series \<^verbatim>\<open>Write\<close> returns \<^verbatim>\<open>ErrNoRecords\<close> and
  writes nothing. The only other error \<^verbatim>\<open>Write\<close> returns is that of a failed write of this
  call, at once: when it returns a writer's error, the call has written the lines of its
  trace, in order and all accepted, then made one more write of a sample line of the last
  step, which failed with that error, and the writer is left as that write left it. When
  \<^verbatim>\<open>Write\<close> returns no error every line of the trace was written and accepted, so with a
  writer that never fails \<^verbatim>\<open>ErrNoRecords\<close> is the only error.
\<close>

theorem Write_errors:
  "(first r = Map.empty \<longrightarrow>
      Write wr ords r w resolution = Some (r, \<lparr>sink = w, err = Some ErrNoRecords, trace = []\<rparr>))
   \<and> (Write wr ords r w resolution = Some (r', out) \<longrightarrow>
        (err out = None \<longrightarrow> write_all wr w (trace_lines (trace out)) = (sink out, None))
      \<and> (err out = Some ErrNoRecords \<longrightarrow> sink out = w \<and> trace out = []
            \<and> (set (ords 0) = dom (first r) \<longrightarrow> first r = Map.empty))
      \<and> (\<forall>e. err out = Some e \<and> e \<noteq> ErrNoRecords \<longrightarrow>
            (\<exists>e' wb n v. e = WriterError e' \<and> trace out \<noteq> []
               \<and> write_all wr w (trace_lines (trace out)) = (wb, None)
               \<and> wr wb (sample_line n v (fst (last (trace out)))) = (sink out, Some e')))
      \<and> (never_fails wr \<longrightarrow> err out = None \<or> err out = Some ErrNoRecords))"
proof (rule conjI; rule impI)
  assume "first r = Map.empty"
  then have "start_time (ords 0) (first r) = None"
    by (simp add: start_time_None)
  then show "Write wr ords r w resolution = Some (r, \<lparr>sink = w, err = Some ErrNoRecords, trace = []\<rparr>)"
    by (simp add: Write_def)
next
  assume w: "Write wr ords r w resolution = Some (r', out)"
  show "(err out = None \<longrightarrow> write_all wr w (trace_lines (trace out)) = (sink out, None))
      \<and> (err out = Some ErrNoRecords \<longrightarrow> sink out = w \<and> trace out = []
            \<and> (set (ords 0) = dom (first r) \<longrightarrow> first r = Map.empty))
      \<and> (\<forall>e. err out = Some e \<and> e \<noteq> ErrNoRecords \<longrightarrow>
            (\<exists>e' wb n v. e = WriterError e' \<and> trace out \<noteq> []
               \<and> write_all wr w (trace_lines (trace out)) = (wb, None)
               \<and> wr wb (sample_line n v (fst (last (trace out)))) = (sink out, Some e')))
      \<and> (never_fails wr \<longrightarrow> err out = None \<or> err out = Some ErrNoRecords)"
  proof (cases "start_time (ords 0) (first r)")
    case None
    then have "set (ords 0) = dom (first r) \<longrightarrow> first r = Map.empty"
      by (auto simp: start_time_None)
    moreover from None w have "out = \<lparr>sink = w, err = Some ErrNoRecords, trace = []\<rparr>"
      by (auto simp: Write_def)
    ultimately show ?thesis by simp
  next
    case (Some start)
    with w have "walk wr ords resolution 0 start (first r) w [] = Some out"
      by (auto simp: Write_def)
    from walk_writes[OF this] have ne: "trace out \<noteq> []" and wr: "written wr w (trace out) out"
      by auto
    have a: "err out = None \<longrightarrow> write_all wr w (trace_lines (trace out)) = (sink out, None)"
      using wr unfolding written_def by (cases "err out") simp_all
    have c: "\<forall>e. err out = Some e \<longrightarrow>
            (\<exists>e' wb n v. e = WriterError e' \<and> trace out \<noteq> []
               \<and> write_all wr w (trace_lines (trace out)) = (wb, None)
               \<and> wr wb (sample_line n v (fst (last (trace out)))) = (sink out, Some e'))"
      using wr ne unfolding written_def by (cases "err out") auto
    have d: "never_fails wr \<longrightarrow> err out = None \<or> err out = Some ErrNoRecords"
    proof
      assume nf: "never_fails wr"
      show "err out = None \<or> err out = Some ErrNoRecords"
      proof (cases "err out")
        case None
        then show ?thesis by simp
      next
        case (Some e)
        with c obtain e' wb s where "wr wb s = (sink out, Some e')" by blast
        with nf show ?thesis unfolding never_fails_def by (metis snd_conv option.distinct(1))
      qed
    qed
    have b: "err out \<noteq> Some ErrNoRecords"
      using c by auto
    from a b c d show ?thesis by blast
  qed
qed

theorem Write_errors_witness:
  "first newLinkedListRecorder = Map.empty
   \<and> Write short_writer foo_order newLinkedListRecorder [] (10 * Second)
       = Some (newLinkedListRecorder, \<lparr>sink = [], err = Some ErrNoRecords, trace = []\<rparr>)
   \<and> Write short_writer foo_order (Incs (foo_events 0) newLinkedListRecorder) [] (10 * Second)
       = Some (Incs (foo_events 0) newLinkedListRecorder,
           \<lparr>sink = [''foo 1 0'' @ [CHR 0x0A], ''foo''], err = Some (WriterError ''short write''),
             trace = [(0, [(''foo'', 1)]), (10 * Second, [])]\<rparr>)
   \<and> (\<exists>e' wb n v. WriterError ''short write'' = WriterError e'
         \<and> trace \<lparr>sink = [''foo 1 0'' @ [CHR 0x0A], ''foo''], err = Some (WriterError ''short write''),
                    trace = [(0, [(''foo'', 1 :: 64 word)]), (10 * Second, [])]\<rparr> \<noteq> []
         \<and> write_all short_writer []
               (trace_lines (trace \<lparr>sink = [''foo 1 0'' @ [CHR 0x0A], ''foo''],
                  err = Some (WriterError ''short write''),
                  trace = [(0, [(''foo'', 1)]), (10 * Second, [])]\<rparr>)) = (wb, None)
         \<and> short_writer wb (sample_line n v (fst (last (trace
               \<lparr>sink = [''foo 1 0'' @ [CHR 0x0A], ''foo''], err = Some (WriterError ''short write''),
                 trace = [(0, [(''foo'', 1 :: 64 word)]), (10 * Second, [])]\<rparr>))))
             = (sink \<lparr>sink = [''foo 1 0'' @ [CHR 0x0A], ''foo''],
                  err = Some (WriterError ''short write''),
                  trace = [(0, [(''foo'', 1 :: 64 word)]), (10 * Second, [])]\<rparr>, Some e'))
   \<and> never_fails (builder :: (string, unit) writer)
   \<and> write_all (builder :: (string, unit) writer) []
        (trace_lines [(0, [(''a'', 1)]), (10 * Second, [(''a'', 1)]), (20 * Second, [(''a'', 1)]),
                      (30 * Second, [(''a'', 2), (''b'', 1)])])
       = (''a 1 0'' @ [CHR 0x0A] @ ''a 1 10'' @ [CHR 0x0A] @ ''a 1 20'' @ [CHR 0x0A]
            @ ''a 2 30'' @ [CHR 0x0A] @ ''b 1 30'' @ [CHR 0x0A], None)"
proof -
  let ?out = "\<lparr>sink = [''foo 1 0'' @ [CHR 0x0A], ''foo''], err = Some (WriterError ''short write''),
      trace = [(0, [(''foo'', 1 :: 64 word)]), (10 * Second, [])]\<rparr>"
  have empty: "first newLinkedListRecorder = Map.empty"
    by (simp add: newLinkedListRecorder_def)
  from Write_errors[of newLinkedListRecorder short_writer foo_order "[]" "10 * Second"] empty
  have 1: "Write short_writer foo_order newLinkedListRecorder [] (10 * Second)
       = Some (newLinkedListRecorder, \<lparr>sink = [], err = Some ErrNoRecords, trace = []\<rparr>)"
    by blast
  have e: "err ?out = Some (WriterError ''short write'') \<and> WriterError ''short write'' \<noteq> ErrNoRecords"
    by simp
  from Write_errors[of "Incs (foo_events 0) newLinkedListRecorder" short_writer foo_order "[]"
      "10 * Second" "Incs (foo_events 0) newLinkedListRecorder" ?out] short_Write e
  have 2: "\<exists>e' wb n v. WriterError ''short write'' = WriterError e' \<and> trace ?out \<noteq> []
         \<and> write_all short_writer [] (trace_lines (trace ?out)) = (wb, None)
         \<and> short_writer wb (sample_line n v (fst (last (trace ?out)))) = (sink ?out, Some e')"
    by blast
  have nf: "never_fails (builder :: (string, unit) writer)"
    by (simp add: never_fails_def builder_def)
  let ?ok = "\<lparr>sink = ''a 1 0'' @ [CHR 0x0A] @ ''a 1 10'' @ [CHR 0x0A] @ ''a 1 20'' @ [CHR 0x0A]
                  @ ''a 2 30'' @ [CHR 0x0A] @ ''b 1 30'' @ [CHR 0x0A],
           err = None :: unit error option,
           trace = [(0, [(''a'', 1 :: 64 word)]), (10 * Second, [(''a'', 1)]), (20 * Second, [(''a'', 1)]),
                    (30 * Second, [(''a'', 2), (''b'', 1)])]\<rparr>"
  have n: "err ?ok = None" by simp
  from Write_errors[of "Incs overlap_events newLinkedListRecorder" builder ab_order "[]"
      "10 * Second" "Incs overlap_events newLinkedListRecorder" ?ok] overlap_Write n
  have "write_all (builder :: (string, unit) writer) [] (trace_lines (trace ?ok)) = (sink ?ok, None)"
    by blast
  then have 3: "write_all (builder :: (string, unit) writer) []
        (trace_lines [(0, [(''a'', 1)]), (10 * Second, [(''a'', 1)]), (20 * Second, [(''a'', 1)]),
                      (30 * Second, [(''a'', 2), (''b'', 1)])])
       = (''a 1 0'' @ [CHR 0x0A] @ ''a 1 10'' @ [CHR 0x0A] @ ''a 1 20'' @ [CHR 0x0A]
            @ ''a 2 30'' @ [CHR 0x0A] @ ''b 1 30'' @ [CHR 0x0A], None)"
    by (simp only: outcome.simps)
  from conjI[OF empty conjI[OF 1 conjI[OF short_Write conjI[OF 2 conjI[OF nf 3]]]]] show ?thesis .
qed

theorem Write_fails_on_closed_writer:
  "first (Incs (foo_events 0) newLinkedListRecorder) ''foo'' \<noteq> None
   \<and> Write closed_writer foo_order (Incs (foo_events 0) newLinkedListRecorder) [] (10 * Second)
       = Some (Incs (foo_events 0) newLinkedListRecorder,
           \<lparr>sink = [], err = Some (WriterError ''closed''), trace = [(0, [])]\<rparr>)"
  by (simp add: foo_events_def foo_order_def closed_writer_def write_eval)

text \<open>
  C6. When the series has a tail node and the timestamp of the call is before the tail's
  timestamp, \<^verbatim>\<open>Inc\<close> returns with the recorder exactly as it was (both maps, hence the
  chain, the tail and the total of every series) and prints the line that reports the
  ignored record.
\<close>

theorem Inc_out_of_order_ignored:
  assumes "current r n = Some cur" and "t < at cur"
  shows "Inc r n v t = (r, Some (ignoring_message n t (at cur)))"
  using assms by (simp add: Inc_def)

theorem Inc_out_of_order_ignored_witness:
  "current (Incs (foo_events 0) newLinkedListRecorder) ''foo'' = Some (Record 5 (33 * Second) None)
   \<and> 20 * Second < at (Record 5 (33 * Second) None)
   \<and> Inc (Incs (foo_events 0) newLinkedListRecorder) ''foo'' 1 (20 * Second)
       = (Incs (foo_events 0) newLinkedListRecorder,
          Some (ignoring_message ''foo'' (20 * Second) (at (Record 5 (33 * Second) None))))
   \<and> ignoring_message ''foo'' (20 * Second) (at (Record 5 (33 * Second) None))
       = ''backfill: foo: ignoring record at 20, current is at 33'' @ [CHR 0x0A]"
proof -
  have c: "current (Incs (foo_events 0) newLinkedListRecorder) ''foo'' = Some (Record 5 (33 * Second) None)"
    by (simp add: foo_events_def Incs_def Inc_def newLinkedListRecorder_def Second_def Let_def)
  have l: "20 * Second < at (Record 5 (33 * Second) None)"
    by (simp add: Second_def)
  have m: "ignoring_message ''foo'' (20 * Second) (at (Record 5 (33 * Second) None))
       = ''backfill: foo: ignoring record at 20, current is at 33'' @ [CHR 0x0A]"
    by (simp add: ignoring_message_def show_int_def Unix_def Second_def show_nat.simps digit_def)
  from conjI[OF c conjI[OF l conjI[OF Inc_out_of_order_ignored[OF c l, of 1] m]]] show ?thesis .
qed

text \<open>
  C7, as amended. In a recorder reached by calls of \<^verbatim>\<open>Inc\<close>, when the series has a tail
  node and the timestamp of the call is not before the tail's timestamp (equal timestamps
  included), \<^verbatim>\<open>Inc\<close> appends exactly one node to the chain of the series; its timestamp is
  that of the call and its value is the tail's value plus the amount reduced modulo
  \<open>2 ^ 64\<close> (\<^verbatim>\<open>current.value + value\<close> is a \<^verbatim>\<open>uint64\<close> addition and wraps around), which is
  the tail's value plus the amount whenever that is below \<open>2 ^ 64\<close>. The new node becomes
  the tail, nothing is printed, and the other series are untouched.
\<close>

theorem Inc_appends_one_tail_node:
  assumes r: "r = Incs evs newLinkedListRecorder" and cur: "current r n = Some cur" and le: "at cur \<le> t"
  shows "chain r n \<noteq> [] \<and> last (chain r n) = (val cur, at cur)
    \<and> chain (fst (Inc r n v t)) n = chain r n @ [(val cur + v, t)]
    \<and> unat (val cur + v) = (unat (val cur) + unat v) mod 2 ^ 64
    \<and> (unat (val cur) + unat v < 2 ^ 64 \<longrightarrow> unat (val cur + v) = unat (val cur) + unat v)
    \<and> current (fst (Inc r n v t)) n = Some (Record (val cur + v) t None)
    \<and> snd (Inc r n v t) = None
    \<and> (\<forall>m. m \<noteq> n \<longrightarrow> chain (fst (Inc r n v t)) m = chain r m
            \<and> current (fst (Inc r n v t)) m = current r m)"
proof -
  from Incs_represents[of evs n] cur r obtain c where
    c: "first r n = Some c" "nodes c = running 0 (accepted n evs)"
      "cur = tail_of (running 0 (accepted n evs))"
    by (auto simp: represents_def split: if_splits)
  have 1: "chain r n \<noteq> []" using c(1) by (simp add: chain_def)
  have 2: "last (chain r n) = (val cur, at cur)"
    using c by (simp add: chain_def tail_of_def)
  have 3: "chain (fst (Inc r n v t)) n = chain r n @ [(val cur + v, t)]"
    using c(1) cur le by (simp add: chain_def Inc_def Let_def nodes_set_tail_next)
  have 4: "current (fst (Inc r n v t)) n = Some (Record (val cur + v) t None)"
    "snd (Inc r n v t) = None"
    using c(1) cur le by (simp_all add: Inc_def Let_def)
  have 5: "\<forall>m. m \<noteq> n \<longrightarrow> chain (fst (Inc r n v t)) m = chain r m
            \<and> current (fst (Inc r n v t)) m = current r m"
    using c(1) cur le by (simp add: chain_def Inc_def Let_def)
  have 6: "unat (val cur + v) = (unat (val cur) + unat v) mod 2 ^ 64"
    by (simp add: unat_word_ariths(1))
  then have 7: "unat (val cur) + unat v < 2 ^ 64 \<longrightarrow> unat (val cur + v) = unat (val cur) + unat v"
    by simp
  from 1 2 3 6 7 4 5 show ?thesis by (intro conjI)
qed

theorem Inc_appends_one_tail_node_witness:
  "current (Incs [(''foo'', 1, 0)] newLinkedListRecorder) ''foo'' = Some (Record 1 0 None)
   \<and> at (Record 1 0 None) \<le> 0
   \<and> chain (Incs [(''foo'', 1, 0)] newLinkedListRecorder) ''foo'' = [(1, 0)]
   \<and> unat (val (Record 1 0 None)) + unat (1 :: 64 word) < 2 ^ 64
   \<and> chain (fst (Inc (Incs [(''foo'', 1, 0)] newLinkedListRecorder) ''foo'' 1 0)) ''foo''
       = chain (Incs [(''foo'', 1, 0)] newLinkedListRecorder) ''foo'' @ [(val (Record 1 0 None) + 1, 0)]
   \<and> unat (val (Record 1 0 None) + (1 :: 64 word)) = unat (val (Record 1 0 None)) + unat (1 :: 64 word)
   \<and> current (fst (Inc (Incs [(''foo'', 1, 0)] newLinkedListRecorder) ''foo'' 1 0)) ''foo''
       = Some (Record (val (Record 1 0 None) + 1) 0 None)"
proof -
  let ?r = "Incs [(''foo'', 1, 0)] newLinkedListRecorder"
  have c: "current ?r ''foo'' = Some (Record 1 0 None)"
    by (simp add: Incs_def Inc_def newLinkedListRecorder_def Let_def)
  have l: "at (Record 1 0 None) \<le> 0" by simp
  have ch: "chain ?r ''foo'' = [(1, 0)]"
    by (simp add: chain_def Incs_def Inc_def newLinkedListRecorder_def Let_def)
  have b: "unat (val (Record 1 0 None)) + unat (1 :: 64 word) < 2 ^ 64" by simp
  note th = Inc_appends_one_tail_node[OF refl c l, of 1]
  from conjI[OF c conjI[OF l conjI[OF ch conjI[OF b conjI[OF
    th[THEN conjunct2, THEN conjunct2, THEN conjunct1] conjI[OF
    th[THEN conjunct2, THEN conjunct2, THEN conjunct2, THEN conjunct2, THEN conjunct1, THEN mp, OF b]
    th[THEN conjunct2, THEN conjunct2, THEN conjunct2, THEN conjunct2, THEN conjunct2, THEN conjunct1]]]]]]]
  show ?thesis .
qed

text \<open>
  The claim as stated, with the previous value plus the amount, fails when that sum
  reaches \<open>2 ^ 64\<close>: after \<^verbatim>\<open>Inc("foo", 18446744073709551615, 0s)\<close> the call
  \<^verbatim>\<open>Inc("foo", 2, 0s)\<close> appends a node with value \<open>1\<close>, not \<open>18446744073709551617\<close>.
\<close>

theorem Inc_sum_wraps_around:
  "current (Incs [(''foo'', 18446744073709551615, 0)] newLinkedListRecorder) ''foo''
     = Some (Record 18446744073709551615 0 None)
   \<and> chain (fst (Inc (Incs [(''foo'', 18446744073709551615, 0)] newLinkedListRecorder) ''foo'' 2 0)) ''foo''
       = [(18446744073709551615, 0), (1, 0)]
   \<and> unat (18446744073709551615 :: 64 word) + unat (2 :: 64 word) = 18446744073709551617
   \<and> unat (1 :: 64 word) \<noteq> unat (18446744073709551615 :: 64 word) + unat (2 :: 64 word)"
  by (simp add: chain_def Incs_def Inc_def newLinkedListRecorder_def Let_def)

text \<open>
  C8. For a metric without labels the specification states the identity \<open>name{}\<close>.
  \<^verbatim>\<open>labels.String\<close> slices the empty string at \<open>-1\<close> and panics, so \<^verbatim>\<open>Metric.Inc\<close> on a
  metric without labels panics before it reaches the recorder.
\<close>

theorem labels_String_empty_panics:
  "labels_String quote [] = Inl (SliceBoundsOutOfRange (- 1))
   \<and> Metric_Inc quote \<lparr>name = ''qux'', labels = []\<rparr> r v t = Inl (SliceBoundsOutOfRange (- 1))"
  by (simp add: labels_String_def Metric_Inc_def)

text \<open>
  C9, as amended. Two calls of \<^verbatim>\<open>Write\<close> in succession on the same recorder, with the same
  resolution, to a writer that never fails, whose map visits go through the same series
  (once each) in possibly different orders: when the first call returns, so does the
  second, with the same error, the same time steps and in every step the same samples up
  to their order; each call has written exactly the lines of its samples in the order of
  its visits. When the recorder holds a single series the two outcomes are identical.
\<close>

theorem Write_twice_same_steps:
  fixes out1 :: "('w, 'e) outcome"
  assumes nf: "never_fails wr"
    and ords: "\<forall>k. distinct (ords1 k) \<and> distinct (ords2 k) \<and> set (ords1 k) = set (ords2 k)"
    and w1: "Write wr ords1 r w1 resolution = Some (r1, out1)"
  shows "\<exists>out2 :: ('w, 'e) outcome. Write wr ords2 r1 w2 resolution = Some (r1, out2)
      \<and> err out2 = err out1
      \<and> list_all2 (\<lambda>(t1, em1) (t2, em2). t1 = t2 \<and> mset em1 = mset em2) (trace out1) (trace out2)
      \<and> write_all wr w1 (trace_lines (trace out1)) = (sink out1, None)
      \<and> write_all wr w2 (trace_lines (trace out2)) = (sink out2, None)
      \<and> ((\<forall>k. set (ords1 k) = dom (first r)) \<and> (\<exists>n. dom (first r) = {n}) \<and> w1 = w2
            \<longrightarrow> out2 = out1)"
proof -
  from w1 have r1: "r1 = r" by (auto simp: Write_def split: option.splits)
  from ords have "set (ords1 0) = set (ords2 0)" by blast
  then have st0: "start_time (ords1 0) (first r) = start_time (ords2 0) (first r)"
    by (rule start_time_perm)
  have single: "ords1 = ords2"
    if a: "(\<forall>k. set (ords1 k) = dom (first r)) \<and> (\<exists>n. dom (first r) = {n})"
  proof
    fix k
    from a obtain n where n: "set (ords1 k) = {n}" by auto
    with ords have "set (ords2 k) = {n}" "distinct (ords1 k)" "distinct (ords2 k)" by auto
    with n have "ords1 k = [n]" "ords2 k = [n]"
      by (simp_all add: distinct_set_single)
    then show "ords1 k = ords2 k" by simp
  qed
  show ?thesis
  proof (cases "start_time (ords1 0) (first r)")
    case None
    with w1 have o1: "out1 = \<lparr>sink = w1, err = Some ErrNoRecords, trace = []\<rparr>"
      by (simp add: Write_def)
    let ?out2 = "\<lparr>sink = w2, err = Some ErrNoRecords, trace = []\<rparr> :: ('w, 'e) outcome"
    have "Write wr ords2 r1 w2 resolution = Some (r1, ?out2)"
      using None st0 by (simp add: Write_def r1)
    then show ?thesis
      by (intro exI[of _ ?out2]) (simp add: o1)
  next
    case (Some start)
    with w1 have wk1: "walk wr ords1 resolution 0 start (first r) w1 [] = Some out1"
      by (auto simp: Write_def)
    have "same_steps [] []" by (simp add: same_steps_def)
    from walk_total_perm[OF nf wk1 ords this, of w2] obtain out2 :: "('w, 'e) outcome" where
      wk2: "walk wr ords2 resolution 0 start (first r) w2 [] = Some out2"
      and ss: "same_steps (trace out1) (trace out2)" and e: "err out1 = None" "err out2 = None"
      by blast
    from walk_writes[OF wk1] e(1) have s1: "write_all wr w1 (trace_lines (trace out1)) = (sink out1, None)"
      by (auto simp: written_def)
    from walk_writes[OF wk2] e(2) have s2: "write_all wr w2 (trace_lines (trace out2)) = (sink out2, None)"
      by (auto simp: written_def)
    have same: "(\<forall>k. set (ords1 k) = dom (first r)) \<and> (\<exists>n. dom (first r) = {n}) \<and> w1 = w2
        \<longrightarrow> out2 = out1"
    proof
      assume a: "(\<forall>k. set (ords1 k) = dom (first r)) \<and> (\<exists>n. dom (first r) = {n}) \<and> w1 = w2"
      then have "ords1 = ords2" using single by blast
      with a wk1 wk2 have "Some out2 = Some out1" by metis
      then show "out2 = out1" by simp
    qed
    have "Write wr ords2 r1 w2 resolution = Some (r1, out2)"
      using wk2 Some st0 by (simp add: Write_def r1)
    moreover have "err out2 = err out1" using e by simp
    moreover have "list_all2 (\<lambda>(t1, em1) (t2, em2). t1 = t2 \<and> mset em1 = mset em2) (trace out1) (trace out2)"
      using ss unfolding same_steps_def .
    ultimately show ?thesis using s1 s2 same
      by (intro exI[of _ out2] conjI) assumption+
  qed
qed

theorem Write_twice_same_steps_witness:
  "never_fails (builder :: (string, unit) writer)
   \<and> (\<forall>k. distinct (ab_order k) \<and> distinct (ba_order k) \<and> set (ab_order k) = set (ba_order k))
   \<and> Write (builder :: (string, unit) writer) ab_order (Incs same_time_events newLinkedListRecorder) []
       (10 * Second)
     = Some (Incs same_time_events newLinkedListRecorder,
         \<lparr>sink = ''a 1 0'' @ [CHR 0x0A] @ ''b 1 0'' @ [CHR 0x0A], err = None,
           trace = [(0, [(''a'', 1), (''b'', 1)])]\<rparr>)
   \<and> (\<exists>out2. Write (builder :: (string, unit) writer) ba_order
            (Incs same_time_events newLinkedListRecorder) [] (10 * Second)
          = Some (Incs same_time_events newLinkedListRecorder, out2)
        \<and> list_all2 (\<lambda>(t1, em1) (t2, em2). t1 = t2 \<and> mset em1 = mset em2)
            [(0, [(''a'', 1), (''b'', 1)])] (trace out2))"
proof -
  have nf: "never_fails (builder :: (string, unit) writer)"
    by (simp add: never_fails_def builder_def)
  from Write_twice_same_steps[OF nf orders_permuted same_time_Write_ab, where ?w2.0 = "[]"]
  have "\<exists>out2. Write (builder :: (string, unit) writer) ba_order
            (Incs same_time_events newLinkedListRecorder) [] (10 * Second)
          = Some (Incs same_time_events newLinkedListRecorder, out2)
        \<and> list_all2 (\<lambda>(t1, em1) (t2, em2). t1 = t2 \<and> mset em1 = mset em2)
            [(0, [(''a'', 1), (''b'', 1)])] (trace out2)"
    by auto
  from conjI[OF nf conjI[OF orders_permuted conjI[OF same_time_Write_ab this]]] show ?thesis .
qed

theorem Write_twice_different_bytes:
  "Write builder ab_order (Incs same_time_events newLinkedListRecorder) [] (10 * Second)
     = Some (Incs same_time_events newLinkedListRecorder,
         \<lparr>sink = ''a 1 0'' @ [CHR 0x0A] @ ''b 1 0'' @ [CHR 0x0A], err = None,
           trace = [(0, [(''a'', 1), (''b'', 1)])]\<rparr>)
   \<and> Write builder ba_order (Incs same_time_events newLinkedListRecorder) [] (10 * Second)
     = Some (Incs same_time_events newLinkedListRecorder,
         \<lparr>sink = ''b 1 0'' @ [CHR 0x0A] @ ''a 1 0'' @ [CHR 0x0A], err = None,
           trace = [(0, [(''b'', 1), (''a'', 1)])]\<rparr>)
   \<and> ''a 1 0'' @ [CHR 0x0A] @ ''b 1 0'' @ [CHR 0x0A] \<noteq> ''b 1 0'' @ [CHR 0x0A] @ ''a 1 0'' @ [CHR 0x0A]"
  by (simp add: same_time_events_def ab_order_def ba_order_def write_eval)

text \<open>
  C10. \<^verbatim>\<open>Write\<close> assigns to nothing that the recorder reaches. In the store, after a call of
  \<^verbatim>\<open>Write\<close> on the recorder object \<open>r\<close> that returns, every record object is as it was
  (its value, its timestamp and its \<^verbatim>\<open>next\<close> pointer), so is every recorder object, and so
  is every map object that existed before the call. Hence the map of first records and
  the map of current records of \<open>r\<close> are the same map objects with the same entries, and
  every series has the same chain. The one object the call assigns to is the map
  \<^verbatim>\<open>current\<close> that it creates itself, a copy of the map of first records. Writer, visiting
  orders and resolution are arbitrary; the store is arbitrary but for the map of current
  records of \<open>r\<close>, which is an object of the store.

  On a store that holds a recorder of the first model the call returns what \<^verbatim>\<open>Write\<close>
  returns there (lemma \<open>Write_st_simulates_Write\<close>); \<^verbatim>\<open>Inc\<close> in the store, with its
  assignment through \<^verbatim>\<open>current.next\<close>, keeps the two models in step (lemma
  \<open>Inc_st_simulates\<close>), so on every store built by calls of \<^verbatim>\<open>Inc\<close> the call returns for
  every positive resolution (lemma \<open>Write_st_returns\<close>).
\<close>

theorem Write_leaves_store_unchanged:
  assumes w: "Write_st wr ords st r w resolution = Some (st', out)"
    and c: "current_of st r = Some cm"
  shows "record_objs st' = record_objs st
    \<and> recorder_objs st' = recorder_objs st
    \<and> take (length (map_objs st)) (map_objs st') = map_objs st
    \<and> first_of st' r = first_of st r
    \<and> current_of st' r = Some cm
    \<and> (\<forall>n. chain_of st' r n = chain_of st r n)"
proof -
  from w obtain ro fm start where ro: "load (recorder_objs st) r = Some ro"
    and fm: "load (map_objs st) (first_map ro) = Some fm"
    and start: "start_st (record_objs st) fm (ords 0) None = Some start"
    by (auto simp: Write_st_def bind_eq_Some_conv)
  have frame: "record_objs st' = record_objs st \<and> recorder_objs st' = recorder_objs st
    \<and> take (length (map_objs st)) (map_objs st') = map_objs st"
  proof (cases start)
    case None
    with w ro fm start have "st' = st" by (simp add: Write_st_def)
    then show ?thesis by simp
  next
    case (Some s)
    let ?st1 = "st\<lparr>map_objs := map_objs st @ [fm]\<rparr>"
    let ?cur = "length (map_objs st)"
    from w ro fm start Some obtain so :: record_obj where
      wk: "walk_st wr ords resolution 0 (obj_at so) ?cur ?st1 w [] = Some (st', out)"
      by (auto simp: Write_st_def copy_map_def bind_eq_Some_conv)
    from walk_st_same_but[OF wk] have sb: "same_but ?st1 st' ?cur" by simp
    then have len: "length (map_objs st') = Suc (length (map_objs st))"
      and nth: "\<And>a. a < length (map_objs st) \<Longrightarrow> map_objs st' ! a = map_objs st ! a"
      by (auto simp: same_but_def nth_append)
    have "take (length (map_objs st)) (map_objs st') = map_objs st"
      by (rule nth_equalityI) (simp_all add: len nth)
    with sb show ?thesis by (simp add: same_but_def)
  qed
  then have recs: "record_objs st' = record_objs st" and rcd: "recorder_objs st' = recorder_objs st"
    and tk: "take (length (map_objs st)) (map_objs st') = map_objs st"
    by simp_all
  note old = take_prefix_load[OF tk]
  have f: "first_of st' r = first_of st r"
    using ro fm old[OF fm] by (simp add: first_of_def rcd)
  from c ro have "load (map_objs st) (current_map ro) = Some cm"
    by (simp add: current_of_def)
  from old[OF this] have cu: "current_of st' r = Some cm"
    using ro by (simp add: current_of_def rcd)
  have ch: "\<forall>n. chain_of st' r n = chain_of st r n"
    by (simp only: chain_of_def f recs simp_thms)
  from frame f cu ch show ?thesis by simp
qed

theorem Write_leaves_store_unchanged_witness:
  "Write_st (builder :: (string, unit) writer) foo_order foo_store 0 [] (10 * Second)
     = Some (foo_store_written,
         \<lparr>sink = ''foo 1 0'' @ [CHR 0x0A] @ ''foo 2 10'' @ [CHR 0x0A] @ ''foo 4 20'' @ [CHR 0x0A]
                  @ ''foo 4 30'' @ [CHR 0x0A] @ ''foo 5 40'' @ [CHR 0x0A],
           err = None,
           trace = [(0, [(''foo'', 1)]), (10 * Second, [(''foo'', 2)]), (20 * Second, [(''foo'', 4)]),
                    (30 * Second, [(''foo'', 4)]), (40 * Second, [(''foo'', 5)])]\<rparr>)
   \<and> current_of foo_store 0 = Some [''foo'' \<mapsto> 4]
   \<and> map_objs foo_store_written = [[''foo'' \<mapsto> 0], [''foo'' \<mapsto> 4], [''foo'' \<mapsto> 3]]
   \<and> chain_of foo_store 0 ''foo''
       = Some [(1, 0), (2, 10 * Second), (3, 15 * Second), (4, 20 * Second), (5, 33 * Second)]
   \<and> record_objs foo_store_written = record_objs foo_store
   \<and> recorder_objs foo_store_written = recorder_objs foo_store
   \<and> take (length (map_objs foo_store)) (map_objs foo_store_written) = map_objs foo_store
   \<and> first_of foo_store_written 0 = first_of foo_store 0
   \<and> current_of foo_store_written 0 = Some [''foo'' \<mapsto> 4]
   \<and> (\<forall>n. chain_of foo_store_written 0 n = chain_of foo_store 0 n)"
proof -
  have c: "current_of foo_store 0 = Some [''foo'' \<mapsto> 4]"
    by (simp add: current_of_def load_def foo_store_def)
  have m: "map_objs foo_store_written = [[''foo'' \<mapsto> 0], [''foo'' \<mapsto> 4], [''foo'' \<mapsto> 3]]"
    by (simp add: foo_store_written_def foo_store_def)
  from conjI[OF foo_store_Write conjI[OF c conjI[OF m conjI[OF foo_store_chain
    Write_leaves_store_unchanged[OF foo_store_Write c]]]]]
  show ?thesis .
qed

end
